theory Spec2Isabelle
  imports Main "HOL-Library.Sublist" "HOL-Library.Multiset"
begin

section \<open>The fetcher of gocrawler.go\<close>

text \<open>
  Go strings are byte sequences and are modelled as \<open>string\<close>. Go's \<open>int\<close> is modelled
  as \<open>int\<close>: the only arithmetic of the program is \<open>countCrawled++\<close>, \<open>count++\<close>,
  \<open>count--\<close> and \<open>depth-1\<close>, each bounded by the number of links the process has seen,
  so the 64-bit range is never left.
\<close>

subsection \<open>The two functions of package strings that the program calls\<close>

text \<open>\<open>strings.HasSuffix(s, suffix)\<close>: \<open>len(s) >= len(suffix)\<close> and the last
  \<open>len(suffix)\<close> bytes of \<open>s\<close> are \<open>suffix\<close>.\<close>

definition HasSuffix :: "string \<Rightarrow> string \<Rightarrow> bool" where
  "HasSuffix s suf = (length suf \<le> length s \<and> drop (length s - length suf) s = suf)"

text \<open>\<open>strings.Index(s, substr)\<close>: the index of the first occurrence of \<open>substr\<close> in
  \<open>s\<close>, or \<open>-1\<close> when there is none.\<close>

fun Index :: "string \<Rightarrow> string \<Rightarrow> int" where
  "Index [] sub = (if sub = [] then 0 else - 1)"
| "Index (c # s) sub =
     (if prefix sub (c # s) then 0
      else (let i = Index s sub in if i < 0 then - 1 else i + 1))"

subsection \<open>Page content\<close>

text \<open>
  \<open>http.Get\<close> and the tokenizer of \<open>golang.org/x/net/html\<close> are outside the repository.
  A page is the sequence of tokens that \<open>z.Next()\<close> yields before the first
  \<open>html.ErrorToken\<close> (end of input or a read error); after it the tokenizer keeps
  answering \<open>ErrorToken\<close>, so the end of the list stands for it. A start tag carries
  \<open>t.Data\<close> (the tag name) and \<open>t.Attr\<close> (key, value pairs in document order); a text
  token carries what \<open>z.Token().String()\<close> returns for it.
\<close>

type_synonym attr = "string \<times> string"

datatype token =
    StartTagToken string "attr list"
  | TextToken string
  | EndTagToken string
  | SelfClosingTagToken string "attr list"
  | CommentToken string
  | DoctypeToken string

text \<open>\<open>getHref\<close> (lines 221-230): the loop over \<open>t.Attr\<close> with the named results
  \<open>ok\<close> and \<open>href\<close>; a later \<open>href\<close> attribute overwrites an earlier one.\<close>

fun getHref_loop :: "attr list \<Rightarrow> bool \<Rightarrow> string \<Rightarrow> bool \<times> string" where
  "getHref_loop [] ok href = (ok, href)"
| "getHref_loop ((k, v) # as) ok href =
     (if k = ''href'' then getHref_loop as True v else getHref_loop as ok href)"

definition getHref :: "attr list \<Rightarrow> bool \<times> string" where
  "getHref as = getHref_loop as False []"

text \<open>\<open>isFile\<close> (lines 232-243).\<close>

definition files :: "string list" where
  "files = [''.pdf'', ''.zip'', ''.jpeg'', ''.jpg'', ''.gif'', ''.png'', ''.doc'', ''.docx'',
            ''.rar'', ''.gzip'', ''.tar'', ''.mp3'', ''.wav'', ''.mpg'', ''.mpeg'', ''.swf'',
            ''.exe'', ''.bin'']"

fun isFile_loop :: "string list \<Rightarrow> string \<Rightarrow> bool" where
  "isFile_loop [] url = False"
| "isFile_loop (file # fs) url = (if HasSuffix url file then True else isFile_loop fs url)"

definition isFile :: "string \<Rightarrow> bool" where
  "isFile url = isFile_loop files url"

subsection \<open>Fetch\<close>

text \<open>\<open>result\<close> (lines 150-153) and the state that \<open>Fetch\<close> reads and writes: the
  package variable \<open>countCrawled\<close> (line 35) and the receiver \<open>f\<close>, a
  \<open>map[string]*result\<close> (line 147), here \<open>fetcherMap\<close>.\<close>

record result =
  title :: string
  urls :: "string list"

record fstate =
  countCrawled :: int
  fetcherMap :: "string \<rightharpoonup> result"

datatype error = Error

text \<open>
  The token loop of \<open>Fetch\<close> (lines 175-211) with its locals \<open>title\<close>, \<open>urls\<close> and the
  global \<open>countCrawled\<close>; \<open>mx\<close> is \<open>*maxURLS\<close>. The loop either leaves through
  \<open>ErrorToken\<close> (\<open>Completed\<close>) or through the \<open>return\<close> of line 196 (\<open>Aborted\<close>).
  The \<open>title\<close> case consumes the token after the tag whatever its type.
  Printing a dot (line 198) is not modelled.
\<close>

datatype exit = Completed | Aborted

fun tokenLoop :: "int \<Rightarrow> token list \<Rightarrow> string \<Rightarrow> string list \<Rightarrow> int
    \<Rightarrow> exit \<times> string \<times> string list \<times> int" where
  "tokenLoop mx [] ttl us cc = (Completed, ttl, us, cc)"
| "tokenLoop mx (StartTagToken d as # rest) ttl us cc =
     (if d = ''a'' then
        (case getHref as of (ok, u) \<Rightarrow>
           if \<not> ok then tokenLoop mx rest ttl us cc
           else if Index u ''http'' = 0 then
             (if cc > mx then (Aborted, ttl, us, cc)
              else if \<not> isFile u then tokenLoop mx rest ttl (us @ [u]) (cc + 1)
              else tokenLoop mx rest ttl us cc)
           else tokenLoop mx rest ttl us cc)
      else if d = ''title'' then
        (case rest of
           [] \<Rightarrow> (Completed, ttl, us, cc)
         | TextToken s # rest' \<Rightarrow> tokenLoop mx rest' s us cc
         | _ # rest' \<Rightarrow> tokenLoop mx rest' ttl us cc)
      else tokenLoop mx rest ttl us cc)"
| "tokenLoop mx (_ # rest) ttl us cc = tokenLoop mx rest ttl us cc"

text \<open>\<open>Fetch\<close> (lines 156-217). \<open>Get url\<close> is \<open>None\<close> when \<open>http.Get\<close> returns an error
  and the page's tokens otherwise. The result pairs the returned \<open>([]string, error)\<close>
  (\<open>Inl\<close> for a non-nil error, with which the slice is nil) with the state after the
  call.\<close>

definition Fetch :: "(string \<Rightarrow> token list option) \<Rightarrow> int \<Rightarrow> fstate \<Rightarrow> string
    \<Rightarrow> (error + string list) \<times> fstate" where
  "Fetch Get mx fs url =
     (case Get url of
        None \<Rightarrow> (Inl Error, fs)
      | Some toks \<Rightarrow>
          (case tokenLoop mx toks [] [] (countCrawled fs) of
             (Aborted, ttl, us, cc) \<Rightarrow>
               (Inl Error,
                \<lparr>countCrawled = cc,
                 fetcherMap = (fetcherMap fs)(url \<mapsto> \<lparr>title = ttl, urls = us\<rparr>)\<rparr>)
           | (Completed, ttl, us, cc) \<Rightarrow>
               (Inr us,
                \<lparr>countCrawled = cc,
                 fetcherMap = (fetcherMap fs)(url \<mapsto> \<lparr>title = ttl, urls = us\<rparr>)\<rparr>)))"

section \<open>The crawl tasks of gocrawler.go\<close>

text \<open>
  The crawl is concurrent: every \<open>go c.Crawl(u, depth-1, doneHere)\<close> of line 100 starts a
  goroutine. It is modelled as an interleaving of atomic moves of the goroutines, chosen
  by an explicit schedule, so that a statement about every schedule is a statement
  about every execution. The goroutines form a tree: a task's children are the
  goroutines it started, and they are the only senders on its channel \<open>doneHere\<close>.

  A call of \<open>Fetch\<close> is one move. The fetcher is a parameter: any function from its
  own state and a URL to a result and a new state. What is proved for every fetcher
  and every state holds whatever the calls return, also when calls that overlap in
  time would race on \<open>countCrawled\<close>; the unsynchronised writes of concurrent calls to
  the results map, which the Go runtime may answer by stopping the process, are not
  modelled.
\<close>

subsection \<open>Tasks\<close>

text \<open>The history map \<open>map[string]bool\<close>; \<open>m[u]\<close> of an absent key is \<open>false\<close>.\<close>

type_synonym visited = "string \<rightharpoonup> bool"

definition lookup :: "visited \<Rightarrow> string \<Rightarrow> bool" where
  "lookup m u = (case m u of None \<Rightarrow> False | Some b \<Rightarrow> b)"

text \<open>Where a goroutine running \<open>(*crawlHistory).Crawl\<close> (lines 72-113) stands.
  \<open>Dispatch m rest\<close> is the loop of lines 96-102 with the map \<open>m\<close> it received and the
  URLs it has still to range over.\<close>

datatype pc =
    Start
  | Acquire
  | Dispatch visited "string list"
  | Release visited
  | Await
  | Signal
  | Finished

text \<open>A goroutine with its parameters \<open>url\<close> and \<open>depth\<close>, its locals \<open>urls\<close> and
  \<open>count\<close>, and the goroutines it has started, in the order of their \<open>go\<close> statements.\<close>

datatype task =
  Task (t_url: string) (t_depth: int) (t_pc: pc) (t_urls: "string list") (t_count: int)
       (t_kids: "task list")

fun is_Start :: "pc \<Rightarrow> bool" where
  "is_Start Start = True"
| "is_Start _ = False"

fun is_Await :: "pc \<Rightarrow> bool" where
  "is_Await Await = True"
| "is_Await _ = False"

fun is_Signal :: "pc \<Rightarrow> bool" where
  "is_Signal Signal = True"
| "is_Signal _ = False"

fun is_Finished :: "pc \<Rightarrow> bool" where
  "is_Finished Finished = True"
| "is_Finished _ = False"

subsection \<open>Shared state\<close>

text \<open>
  \<open>mapAccess\<close> is the channel of capacity 1 of line 56: empty (\<open>None\<close>) or holding the
  map. \<open>fstate\<close> is whatever the fetcher reads and writes. \<open>fetchLog\<close> is not program
  state: it records each call \<open>c.Fetch(url)\<close> of line 79, with the position in the tree
  of the task that made it.
\<close>

record 'fs shared =
  mapAccess :: "visited option"
  fstate :: 'fs
  fetchLog :: "(nat list \<times> string) list"

text \<open>The whole crawl: the root task, called at line 65 in the goroutine of the
  top-level \<open>Crawl\<close>; the channel \<open>done\<close> of capacity 1 of line 63; and whether the
  top-level \<open>Crawl\<close> has returned.\<close>

record 'fs config =
  shared :: "'fs shared"
  root :: task
  doneChan :: "bool list"
  returned :: bool

type_synonym 'fs fetcher = "'fs \<Rightarrow> string \<Rightarrow> (error + string list) \<times> 'fs"

subsection \<open>The moves of one task\<close>

text \<open>
  One move of a goroutine on its own, at position \<open>p\<close> of the tree; \<open>None\<close> when it
  cannot move, because it is blocked on a channel or has returned.
  \<^item> \<open>Start\<close>: lines 74-90. With \<open>depth <= 0\<close> it goes to the send of line 75; otherwise
    it calls \<open>Fetch\<close> and goes to the send of line 84 on an error, to line 93 with
    \<open>count = 0\<close> otherwise.
  \<^item> \<open>Acquire\<close>: line 93, the receive from \<open>mapAccess\<close>, blocked while it is empty.
  \<^item> \<open>Dispatch\<close>: one iteration of lines 96-102, or the end of the loop.
  \<^item> \<open>Release\<close>: line 105, the send to \<open>mapAccess\<close>, blocked while it is full.
  \<^item> \<open>Await\<close>: line 108 with \<open>count <= 0\<close>. With \<open>count > 0\<close> the task is blocked in the
    receive of line 109, which is a move of the sending child (\<open>step_task\<close>).
  \<^item> \<open>Signal\<close>: the send \<open>done <- true\<close>, which needs its receiver.
\<close>

fun local_step :: "'fs fetcher \<Rightarrow> nat list \<Rightarrow> 'fs shared \<Rightarrow> task \<Rightarrow> ('fs shared \<times> task) option" where
  "local_step fetch p sh (Task url depth Start us cnt ks) =
     (if depth \<le> 0 then Some (sh, Task url depth Signal us cnt ks)
      else (case fetch (fstate sh) url of
              (Inl err, fs') \<Rightarrow>
                Some (sh\<lparr>fstate := fs', fetchLog := fetchLog sh @ [(p, url)]\<rparr>,
                      Task url depth Signal us cnt ks)
            | (Inr fetched, fs') \<Rightarrow>
                Some (sh\<lparr>fstate := fs', fetchLog := fetchLog sh @ [(p, url)]\<rparr>,
                      Task url depth Acquire fetched 0 ks)))"
| "local_step fetch p sh (Task url depth Acquire us cnt ks) =
     (case mapAccess sh of
        None \<Rightarrow> None
      | Some m \<Rightarrow> Some (sh\<lparr>mapAccess := None\<rparr>, Task url depth (Dispatch m us) us cnt ks))"
| "local_step fetch p sh (Task url depth (Dispatch m []) us cnt ks) =
     Some (sh, Task url depth (Release m) us cnt ks)"
| "local_step fetch p sh (Task url depth (Dispatch m (u # rest)) us cnt ks) =
     (if \<not> lookup m u
      then Some (sh, Task url depth (Dispatch (m(u \<mapsto> True)) rest) us (cnt + 1)
                       (ks @ [Task u (depth - 1) Start [] 0 []]))
      else Some (sh, Task url depth (Dispatch m rest) us cnt ks))"
| "local_step fetch p sh (Task url depth (Release m) us cnt ks) =
     (case mapAccess sh of
        Some m' \<Rightarrow> None
      | None \<Rightarrow> Some (sh\<lparr>mapAccess := Some m\<rparr>, Task url depth Await us cnt ks))"
| "local_step fetch p sh (Task url depth Await us cnt ks) =
     (if cnt > 0 then None else Some (sh, Task url depth Signal us cnt ks))"
| "local_step fetch p sh (Task url depth Signal us cnt ks) = None"
| "local_step fetch p sh (Task url depth Finished us cnt ks) = None"

text \<open>The send of a child has completed and the child has returned.\<close>

fun finish :: "task \<Rightarrow> task" where
  "finish (Task url depth pc us cnt ks) = Task url depth Finished us cnt ks"

text \<open>Line 109 and the \<open>count--\<close> of line 108: the parent receives what child \<open>i\<close> sends.\<close>

fun receive :: "nat \<Rightarrow> task \<Rightarrow> task" where
  "receive i (Task url depth pc us cnt ks) =
     Task url depth pc us (cnt - 1) (ks[i := finish (ks ! i)])"

fun set_kid :: "nat \<Rightarrow> task \<Rightarrow> task \<Rightarrow> task" where
  "set_kid i k (Task url depth pc us cnt ks) = Task url depth pc us cnt (ks[i := k])"

text \<open>
  The move of the task at position \<open>p\<close> below \<open>t\<close>, where \<open>pre\<close> is the position of \<open>t\<close>
  itself. \<open>doneHere\<close> has no buffer (line 90): a child at its send moves only together
  with its parent, which must be in the receive of line 109.
\<close>

fun step_task :: "'fs fetcher \<Rightarrow> nat list \<Rightarrow> nat list \<Rightarrow> 'fs shared \<Rightarrow> task
    \<Rightarrow> ('fs shared \<times> task) option" where
  "step_task fetch pre [] sh t = local_step fetch pre sh t"
| "step_task fetch pre (i # q) sh t =
     (if i < length (t_kids t) then
        (if q = [] \<and> is_Signal (t_pc (t_kids t ! i)) then
           (if is_Await (t_pc t) \<and> 0 < t_count t then Some (sh, receive i t) else None)
         else (case step_task fetch (pre @ [i]) q sh (t_kids t ! i) of
                 None \<Rightarrow> None
               | Some (sh', k') \<Rightarrow> Some (sh', set_kid i k' t)))
      else None)"

subsection \<open>The crawl\<close>

text \<open>A schedule is a list of moves: \<open>Go p\<close> lets the task at position \<open>p\<close> move, \<open>Main\<close>
  is the receive \<open><-done\<close> of line 68 followed by the return of the top-level \<open>Crawl\<close>.\<close>

datatype move = Go "nat list" | Main

text \<open>
  The root task runs in the caller's goroutine, so line 68 is reached when the root
  task has returned. The root's own send goes to the buffered \<open>done\<close> and needs room
  there, not a receiver.
\<close>

definition step :: "'fs fetcher \<Rightarrow> 'fs config \<Rightarrow> move \<Rightarrow> 'fs config option" where
  "step fetch c mv =
     (case mv of
        Main \<Rightarrow>
          (if returned c \<or> \<not> is_Finished (t_pc (root c)) then None
           else (case doneChan c of
                   [] \<Rightarrow> None
                 | b # bs \<Rightarrow> Some (c\<lparr>doneChan := bs, returned := True\<rparr>)))
      | Go p \<Rightarrow>
          (if p = [] \<and> is_Signal (t_pc (root c)) then
             (if length (doneChan c) < 1
              then Some (c\<lparr>root := finish (root c), doneChan := doneChan c @ [True]\<rparr>)
              else None)
           else (case step_task fetch [] p (shared c) (root c) of
                   None \<Rightarrow> None
                 | Some (sh', t') \<Rightarrow> Some (c\<lparr>shared := sh', root := t'\<rparr>))))"

fun run :: "'fs fetcher \<Rightarrow> 'fs config \<Rightarrow> move list \<Rightarrow> 'fs config option" where
  "run fetch c [] = Some c"
| "run fetch c (mv # mvs) =
     (case step fetch c mv of None \<Rightarrow> None | Some c' \<Rightarrow> run fetch c' mvs)"

text \<open>The top-level \<open>Crawl\<close> (lines 51-69) up to line 63: the history map holding the
  start URL is in \<open>mapAccess\<close>, \<open>done\<close> is empty and the root task is about to be
  called.\<close>

definition Crawl :: "string \<Rightarrow> int \<Rightarrow> 'fs \<Rightarrow> 'fs config" where
  "Crawl url depth fs =
     \<lparr>shared = \<lparr>mapAccess = Some [url \<mapsto> True], fstate = fs, fetchLog = []\<rparr>,
      root = Task url depth Start [] 0 [],
      doneChan = [],
      returned = False\<rparr>"

text \<open>A schedule can be run from the start to a configuration that satisfies \<open>P\<close>.\<close>

definition reaches :: "'fs fetcher \<Rightarrow> 'fs config \<Rightarrow> move list \<Rightarrow> ('fs config \<Rightarrow> bool) \<Rightarrow> bool" where
  "reaches fetch c mvs P = (case run fetch c mvs of None \<Rightarrow> False | Some c' \<Rightarrow> P c')"

subsection \<open>Observations on the tree of tasks\<close>

text \<open>The task at a position of the tree, and a tree all of whose tasks have
  returned.\<close>

fun task_at :: "task \<Rightarrow> nat list \<Rightarrow> task option" where
  "task_at t [] = Some t"
| "task_at t (i # q) = (if i < length (t_kids t) then task_at (t_kids t ! i) q else None)"

fun all_finished :: "task \<Rightarrow> bool" where
  "all_finished (Task url depth pc us cnt ks) =
     (is_Finished pc \<and> list_all all_finished ks)"

text \<open>
  The fan-in discipline of \<open>count\<close> and \<open>doneHere\<close>: before it has the map a task
  has no children; while it holds the map, \<open>count\<close> is the number of children it has started
  and none of them has returned; in the loop of lines 108-110, \<open>count\<close> is the number
  of children that have not yet completed their send; at and after its own send, all its
  children have returned.
\<close>

fun fan_in :: "task \<Rightarrow> bool" where
  "fan_in (Task url depth pc us cnt ks) =
     ((case pc of
         Start \<Rightarrow> ks = []
       | Acquire \<Rightarrow> ks = [] \<and> cnt = 0
       | Dispatch m rest \<Rightarrow>
           cnt = int (length ks) \<and> list_all (\<lambda>k. \<not> is_Finished (t_pc k)) ks
       | Release m \<Rightarrow>
           cnt = int (length ks) \<and> list_all (\<lambda>k. \<not> is_Finished (t_pc k)) ks
       | Await \<Rightarrow> cnt = int (length (filter (\<lambda>k. \<not> is_Finished (t_pc k)) ks))
       | Signal \<Rightarrow> list_all (\<lambda>k. is_Finished (t_pc k)) ks
       | Finished \<Rightarrow> list_all (\<lambda>k. is_Finished (t_pc k)) ks)
      \<and> list_all fan_in ks)"

text \<open>
  Where the history map is and which URLs have been claimed: the URLs of the tasks that
  have not made their first move (\<open>starts\<close>), the maps that tasks hold between lines 93
  and 105 (\<open>held\<close>), the map in the channel (\<open>inChan\<close>) and the URLs passed to \<open>Fetch\<close>
  (\<open>fetched\<close>), all with multiplicity.
\<close>

fun starts :: "task \<Rightarrow> string multiset" where
  "starts (Task url depth pc us cnt ks) =
     (if is_Start pc then {#url#} else {#}) + sum_list (map starts ks)"

fun held :: "task \<Rightarrow> visited multiset" where
  "held (Task url depth pc us cnt ks) =
     (case pc of Dispatch m rest \<Rightarrow> {#m#} | Release m \<Rightarrow> {#m#} | _ \<Rightarrow> {#})
     + sum_list (map held ks)"

definition inChan :: "'fs shared \<Rightarrow> visited multiset" where
  "inChan sh = (case mapAccess sh of None \<Rightarrow> {#} | Some m \<Rightarrow> {#m#})"

definition fetched :: "'fs shared \<Rightarrow> string multiset" where
  "fetched sh = mset (map snd (fetchLog sh))"

text \<open>
  What one move does to the maps \<open>M\<close> and the claimed URLs \<open>U\<close>: either the maps are
  untouched and no URL is added, or one map that does not mark \<open>u\<close> is replaced by the
  same map marking \<open>u\<close>, and \<open>u\<close> is added.
\<close>

definition effect :: "visited multiset \<Rightarrow> string multiset \<Rightarrow> visited multiset \<Rightarrow> string multiset \<Rightarrow> bool" where
  "effect M U M' U' \<longleftrightarrow>
     (M' = M \<and> U' \<subseteq># U)
     \<or> (\<exists>m u. m \<in># M \<and> \<not> lookup m u \<and> M' = M - {#m#} + {#m(u \<mapsto> True)#} \<and> U' = U + {#u#})"

text \<open>One history map exists, it marks every claimed URL, and no URL is claimed twice.\<close>

definition claimed_once :: "'fs config \<Rightarrow> bool" where
  "claimed_once c \<longleftrightarrow>
     (\<exists>V. inChan (shared c) + held (root c) = {#V#}
        \<and> (\<forall>u. u \<in># fetched (shared c) + starts (root c) \<longrightarrow> lookup V u)
        \<and> (\<forall>u. count (fetched (shared c) + starts (root c)) u \<le> 1))"

section \<open>Concrete pages, fetcher states and schedules\<close>

text \<open>A start tag \<open><a href="u">\<close>.\<close>

definition anchor :: "string \<Rightarrow> token" where
  "anchor u = StartTagToken ''a'' [(''href'', u)]"

text \<open>The fetcher state of \<open>main\<close> at line 123: nothing counted, nothing stored.\<close>

definition fs0 :: fstate where
  "fs0 = \<lparr>countCrawled = 0, fetcherMap = Map.empty\<rparr>"

text \<open>Four pages: a links to b and c, b links to d, c and d link to nothing.\<close>

definition web_abcd :: "string \<Rightarrow> token list option" where
  "web_abcd u =
     (if u = ''http://a'' then Some [anchor ''http://b'', anchor ''http://c'']
      else if u = ''http://b'' then Some [anchor ''http://d'']
      else if u = ''http://c'' then Some []
      else if u = ''http://d'' then Some []
      else None)"

text \<open>A schedule that crawls them from a with depth 2 until the top-level \<open>Crawl\<close>
  returns: the root up to its wait, the tasks of b and c interleaved, the task of d,
  and the sends from the leaves up.\<close>

definition sched_abcd :: "move list" where
  "sched_abcd =
     [Go [], Go [], Go [], Go [], Go [], Go [],
      Go [0], Go [1], Go [0], Go [0], Go [0], Go [0], Go [1], Go [1], Go [1],
      Go [0, 0], Go [0, 0], Go [1], Go [1], Go [0], Go [0], Go [], Go [], Main]"

text \<open>Two pages that link to each other, and a schedule that crawls them from a with
  depth 3 until the top-level \<open>Crawl\<close> returns.\<close>

definition web_cycle :: "string \<Rightarrow> token list option" where
  "web_cycle u =
     (if u = ''http://a'' then Some [anchor ''http://b'']
      else if u = ''http://b'' then Some [anchor ''http://a'']
      else None)"

definition sched_cycle :: "move list" where
  "sched_cycle =
     [Go [], Go [], Go [], Go [], Go [],
      Go [0], Go [0], Go [0], Go [0], Go [0], Go [0], Go [0],
      Go [], Go [], Main]"

text \<open>
  The depth discipline, for a crawl of depth \<open>d\<close> and a task \<open>lvl\<close> spawns away from the
  root: its \<open>depth\<close> is \<open>d - lvl\<close>; it has no children before its first move; it has
  passed line 74 only with \<open>depth > 0\<close>; the
  URLs it ranges over are among those its \<open>Fetch\<close> returned, and so are the URLs of
  its children.
\<close>

fun depth_ok :: "int \<Rightarrow> nat \<Rightarrow> task \<Rightarrow> bool" where
  "depth_ok d lvl (Task url depth pc us cnt ks) =
     (depth = d - int lvl
      \<and> (ks \<noteq> [] \<longrightarrow> 0 < depth)
      \<and> (case pc of
            Start \<Rightarrow> ks = []
          | Acquire \<Rightarrow> 0 < depth
          | Dispatch m rest \<Rightarrow> 0 < depth \<and> set rest \<subseteq> set us
          | _ \<Rightarrow> True)
      \<and> list_all (\<lambda>k. t_url k \<in> set us \<and> depth_ok d (Suc lvl) k) ks)"

text \<open>Every logged call of \<open>Fetch\<close> was made by the task at the logged position, for
  its own URL, less than \<open>d\<close> spawns away from the root.\<close>

definition log_ok :: "int \<Rightarrow> 'fs config \<Rightarrow> bool" where
  "log_ok d c \<longleftrightarrow>
     (\<forall>p u. (p, u) \<in> set (fetchLog (shared c)) \<longrightarrow>
        int (length p) < d \<and> (\<exists>t. task_at (root c) p = Some t \<and> t_url t = u))"

text \<open>A page of three links, and a page that links to the same URL twice.\<close>

definition web_three :: "string \<Rightarrow> token list option" where
  "web_three u =
     (if u = ''http://a''
      then Some [anchor ''http://b'', anchor ''http://c'', anchor ''http://d'']
      else None)"

definition web_dup :: "string \<Rightarrow> token list option" where
  "web_dup u =
     (if u = ''http://a'' then Some [anchor ''http://b'', anchor ''http://b''] else None)"

text \<open>What \<open>Fetch\<close> lets through at lines 193 and 200: the link starts with \<open>http\<close> and
  is not a file.\<close>

definition accepted :: "string \<Rightarrow> bool" where
  "accepted u \<longleftrightarrow> prefix ''http'' u \<and> \<not> isFile u"

text \<open>The URLs that the tasks of a tree got from \<open>Fetch\<close> all satisfy \<open>P\<close>.\<close>

fun urls_ok :: "(string \<Rightarrow> bool) \<Rightarrow> task \<Rightarrow> bool" where
  "urls_ok P (Task url depth pc us cnt ks) = (list_all P us \<and> list_all (urls_ok P) ks)"

text \<open>A task that is at its send or has returned, and has started no child.\<close>

definition leaf_done :: "task \<Rightarrow> bool" where
  "leaf_done x \<longleftrightarrow> (is_Signal (t_pc x) \<or> is_Finished (t_pc x)) \<and> t_kids x = []"


text \<open>A start URL that ends in \<open>.pdf\<close> and can be fetched, with no links in it, and
  the schedule of its crawl with depth 1.\<close>

definition web_pdf :: "string \<Rightarrow> token list option" where
  "web_pdf u = (if u = ''http://a/x.pdf'' then Some [] else None)"

definition sched_pdf :: "move list" where
  "sched_pdf = [Go [], Go [], Go [], Go [], Go [], Go [], Main]"

text \<open>A page with a link to a file and links that do not start with \<open>http\<close>.\<close>

definition web_mixed :: "string \<Rightarrow> token list option" where
  "web_mixed u =
     (if u = ''http://a''
      then Some [anchor ''http://b/paper.pdf'', anchor ''/about'', anchor ''ftp://b'',
                 anchor ''http://c'']
      else if u = ''http://c'' then Some []
      else None)"

definition sched_mixed :: "move list" where
  "sched_mixed =
     [Go [], Go [], Go [], Go [], Go [],
      Go [0], Go [0], Go [0], Go [0], Go [0], Go [0],
      Go [], Go [], Main]"


text \<open>The tree with the task at a position replaced.\<close>

fun replace_at :: "task \<Rightarrow> nat list \<Rightarrow> task \<Rightarrow> task" where
  "replace_at t [] x = x"
| "replace_at t (i # q) x = set_kid i (replace_at (t_kids t ! i) q x) t"

text \<open>The number of moves a task that holds the map needs to reach its wait loop.\<close>

fun to_await :: "pc \<Rightarrow> nat" where
  "to_await (Dispatch m rest) = length rest + 2"
| "to_await (Release m) = 1"
| "to_await _ = 0"

text \<open>A page whose only link leads to a URL that cannot be fetched.\<close>

definition web_dead :: "string \<Rightarrow> token list option" where
  "web_dead u = (if u = ''http://a'' then Some [anchor ''http://b''] else None)"

section \<open>Properties of the fetcher\<close>

subsection \<open>The string functions\<close>

lemma HasSuffix_iff: "HasSuffix s suf \<longleftrightarrow> suffix suf s"
  unfolding HasSuffix_def
proof
  assume a: "length suf \<le> length s \<and> drop (length s - length suf) s = suf"
  then have "s = take (length s - length suf) s @ suf"
    by (metis append_take_drop_id)
  then show "suffix suf s"
    unfolding suffix_def by blast
next
  assume "suffix suf s"
  then obtain zs where "s = zs @ suf"
    unfolding suffix_def by blast
  then show "length suf \<le> length s \<and> drop (length s - length suf) s = suf"
    by simp
qed

lemma Index_ge: "- 1 \<le> Index s sub"
  by (induction s) (auto simp: Let_def)

lemma Index_0_iff: "Index s sub = 0 \<longleftrightarrow> prefix sub s"
proof (cases s)
  case Nil
  then show ?thesis by auto
next
  case (Cons c t)
  have "- 1 \<le> Index t sub"
    by (rule Index_ge)
  then show ?thesis
    using Cons by (auto simp: Let_def)
qed

lemma isFile_loop_iff: "isFile_loop fs u \<longleftrightarrow> (\<exists>f \<in> set fs. suffix f u)"
  by (induction fs) (auto simp: HasSuffix_iff)

lemma isFile_iff: "isFile u \<longleftrightarrow> (\<exists>f \<in> set files. suffix f u)"
  by (simp add: isFile_def isFile_loop_iff)

subsection \<open>The token loop\<close>

text \<open>What the loop appends to \<open>urls\<close> are http links that are not files, and
  \<open>countCrawled\<close> grows by one with each of them.\<close>

lemma tokenLoop_urls:
  "tokenLoop mx toks ttl us cc = (e, ttl', us', cc') \<Longrightarrow>
   \<exists>new. us' = us @ new \<and> cc' = cc + int (length new)
      \<and> (\<forall>u \<in> set new. prefix ''http'' u \<and> \<not> isFile u)"
proof (induction mx toks ttl us cc rule: tokenLoop.induct)
  case (2 mx d as rest ttl us cc)
  then show ?case
    by (fastforce split: if_splits prod.splits list.splits token.splits simp: Index_0_iff)
qed simp_all

lemma tokenLoop_aborted:
  "tokenLoop mx toks ttl us cc = (Aborted, ttl', us', cc') \<Longrightarrow> mx < cc'"
proof (induction mx toks ttl us cc rule: tokenLoop.induct)
  case (2 mx d as rest ttl us cc)
  then show ?case
    by (auto split: if_splits prod.splits list.splits token.splits)
qed simp_all

lemma tokenLoop_bound:
  "tokenLoop mx toks ttl us cc = (e, ttl', us', cc') \<Longrightarrow> cc' \<le> max cc (mx + 1)"
proof (induction mx toks ttl us cc rule: tokenLoop.induct)
  case (2 mx d as rest ttl us cc)
  then show ?case
    by (fastforce split: if_splits prod.splits list.splits token.splits)
qed simp_all

section \<open>Properties of the crawl\<close>

subsection \<open>Rules for the moves\<close>

text \<open>The moves a task can make on its own, one case for each.\<close>

lemma local_step_cases [consumes 1, case_names leaf fetch_err fetch_ok acquire loop_end spawn skip release await_end]:
  assumes "local_step fetch p sh t = Some (sh', t')"
  obtains
    (leaf) url depth us cnt ks where
      "t = Task url depth Start us cnt ks" "depth \<le> 0" "sh' = sh"
      "t' = Task url depth Signal us cnt ks"
  | (fetch_err) url depth us cnt ks err fs' where
      "t = Task url depth Start us cnt ks" "0 < depth"
      "fetch (fstate sh) url = (Inl err, fs')"
      "sh' = sh\<lparr>fstate := fs', fetchLog := fetchLog sh @ [(p, url)]\<rparr>"
      "t' = Task url depth Signal us cnt ks"
  | (fetch_ok) url depth us cnt ks fetched fs' where
      "t = Task url depth Start us cnt ks" "0 < depth"
      "fetch (fstate sh) url = (Inr fetched, fs')"
      "sh' = sh\<lparr>fstate := fs', fetchLog := fetchLog sh @ [(p, url)]\<rparr>"
      "t' = Task url depth Acquire fetched 0 ks"
  | (acquire) url depth us cnt ks m where
      "t = Task url depth Acquire us cnt ks" "mapAccess sh = Some m"
      "sh' = sh\<lparr>mapAccess := None\<rparr>"
      "t' = Task url depth (Dispatch m us) us cnt ks"
  | (loop_end) url depth us cnt ks m where
      "t = Task url depth (Dispatch m []) us cnt ks" "sh' = sh"
      "t' = Task url depth (Release m) us cnt ks"
  | (spawn) url depth us cnt ks m u rest where
      "t = Task url depth (Dispatch m (u # rest)) us cnt ks" "\<not> lookup m u" "sh' = sh"
      "t' = Task url depth (Dispatch (m(u \<mapsto> True)) rest) us (cnt + 1)
              (ks @ [Task u (depth - 1) Start [] 0 []])"
  | (skip) url depth us cnt ks m u rest where
      "t = Task url depth (Dispatch m (u # rest)) us cnt ks" "lookup m u" "sh' = sh"
      "t' = Task url depth (Dispatch m rest) us cnt ks"
  | (release) url depth us cnt ks m where
      "t = Task url depth (Release m) us cnt ks" "mapAccess sh = None"
      "sh' = sh\<lparr>mapAccess := Some m\<rparr>"
      "t' = Task url depth Await us cnt ks"
  | (await_end) url depth us cnt ks where
      "t = Task url depth Await us cnt ks" "cnt \<le> 0" "sh' = sh"
      "t' = Task url depth Signal us cnt ks"
  using assms
  by (elim local_step.elims) (auto split: if_splits prod.splits sum.splits option.splits)

text \<open>Induction over a move of the tree: the task moves alone, or its parent receives
  what it sends, or the move is inside a child. The shared state before and after is
  the same at every level.\<close>

lemma step_task_induct [consumes 1, case_names local recv desc]:
  assumes "step_task fetch pre p sh t = Some (sh', t')"
    and "\<And>pre t t'. local_step fetch pre sh t = Some (sh', t') \<Longrightarrow> P pre [] t t'"
    and "\<And>pre i t. i < length (t_kids t) \<Longrightarrow> is_Signal (t_pc (t_kids t ! i)) \<Longrightarrow>
            is_Await (t_pc t) \<Longrightarrow> 0 < t_count t \<Longrightarrow> sh' = sh \<Longrightarrow> P pre [i] t (receive i t)"
    and "\<And>pre i q t k'. i < length (t_kids t) \<Longrightarrow>
            step_task fetch (pre @ [i]) q sh (t_kids t ! i) = Some (sh', k') \<Longrightarrow>
            P (pre @ [i]) q (t_kids t ! i) k' \<Longrightarrow> P pre (i # q) t (set_kid i k' t)"
  shows "P pre p t t'"
  using assms(1)
proof (induction p arbitrary: pre t t')
  case Nil
  then show ?case using assms(2) by simp
next
  case (Cons i q)
  show ?case
  proof (cases "q = [] \<and> is_Signal (t_pc (t_kids t ! i))")
    case True
    with Cons.prems show ?thesis
      using assms(3)[of i t pre] by (auto split: if_splits)
  next
    case False
    with Cons.prems obtain k' where
      i: "i < length (t_kids t)" and
      s: "step_task fetch (pre @ [i]) q sh (t_kids t ! i) = Some (sh', k')" and
      t': "t' = set_kid i k' t"
      by (auto split: if_splits option.splits)
    from assms(4)[OF i s Cons.IH[OF s]] t' show ?thesis by simp
  qed
qed

subsection \<open>Lists of children\<close>

lemma list_all_update:
  "list_all Q ks \<Longrightarrow> Q k \<Longrightarrow> list_all Q (ks[i := k])"
  by (induction ks arbitrary: i) (auto split: nat.splits)

lemma list_all_update_iff:
  "i < length ks \<Longrightarrow> Q k = Q (ks ! i) \<Longrightarrow> list_all Q (ks[i := k]) = list_all Q ks"
  by (induction ks arbitrary: i) (auto split: nat.splits simp: less_Suc_eq_0_disj)

lemma filter_update_length:
  "i < length ks \<Longrightarrow>
   int (length (filter Q (ks[i := k]))) =
     int (length (filter Q ks)) - (if Q (ks ! i) then 1 else 0) + (if Q k then 1 else 0)"
proof (induction ks arbitrary: i)
  case Nil
  then show ?case by simp
next
  case (Cons a ks)
  show ?case
  proof (cases i)
    case 0
    then show ?thesis by simp
  next
    case (Suc j)
    then have "j < length ks" using Cons.prems by simp
    from Cons.IH[OF this] have
      "int (length (filter Q (ks[j := k]))) =
         int (length (filter Q ks)) - (if Q (ks ! j) then 1 else 0) + (if Q k then 1 else 0)" .
    then show ?thesis unfolding Suc by (simp split: if_splits)
  qed
qed

subsection \<open>The fan-in discipline is kept by every move\<close>

lemma t_pc_finish [simp]: "t_pc (finish t) = Finished"
  by (cases t) simp

lemma fan_in_finish: "fan_in k \<Longrightarrow> is_Signal (t_pc k) \<Longrightarrow> fan_in (finish k)"
proof (cases k)
  case (Task url depth pc us cnt ks)
  assume "fan_in k" "is_Signal (t_pc k)"
  with Task show ?thesis by (cases pc) auto
qed

lemma fan_in_finished: "fan_in t \<Longrightarrow> is_Finished (t_pc t) \<Longrightarrow> all_finished t"
proof (induction t)
  case (Task url depth pc us cnt ks)
  then show ?case
    by (cases pc) (auto simp: list_all_iff)
qed

lemma step_task_fan_in:
  assumes "step_task fetch pre p sh t = Some (sh', t')"
  shows "(fan_in t \<longrightarrow> fan_in t') \<and> is_Finished (t_pc t') = is_Finished (t_pc t)"
  using assms
proof (induction rule: step_task_induct)
  case (local pre t t')
  then show ?case
    by (cases rule: local_step_cases) (auto simp: list_all_iff filter_id_conv filter_empty_conv)
next
  case (recv pre i t)
  obtain url depth pc us cnt ks where t: "t = Task url depth pc us cnt ks"
    by (cases t)
  from recv t have pc: "pc = Await" and i: "i < length ks"
    and sig: "is_Signal (t_pc (ks ! i))"
    by (cases pc; simp)+
  from sig have nf: "\<not> is_Finished (t_pc (ks ! i))"
    by (cases "t_pc (ks ! i)") auto
  have t': "receive i t = Task url depth Await us (cnt - 1) (ks[i := finish (ks ! i)])"
    using t pc by simp
  have "fan_in (receive i t)" if f: "fan_in t"
  proof -
    from f t pc have c: "cnt = int (length (filter (\<lambda>k. \<not> is_Finished (t_pc k)) ks))"
      and ks: "list_all fan_in ks"
      by auto
    from ks i have "fan_in (ks ! i)"
      by (simp add: list_all_length)
    then have "fan_in (finish (ks ! i))"
      using sig by (rule fan_in_finish)
    with ks have "list_all fan_in (ks[i := finish (ks ! i)])"
      by (rule list_all_update)
    moreover have "cnt - 1 =
        int (length (filter (\<lambda>k. \<not> is_Finished (t_pc k)) (ks[i := finish (ks ! i)])))"
      using c nf by (simp add: filter_update_length[OF i])
    ultimately show ?thesis
      unfolding t' by simp
  qed
  then show ?case
    using t by simp
next
  case (desc pre i q t k')
  obtain url depth pc us cnt ks where t: "t = Task url depth pc us cnt ks"
    by (cases t)
  from desc t have i: "i < length ks"
    and fin: "is_Finished (t_pc k') = is_Finished (t_pc (ks ! i))"
    and imp: "fan_in (ks ! i) \<longrightarrow> fan_in k'"
    by simp_all
  have "fan_in (set_kid i k' t)" if f: "fan_in t"
  proof -
    from f t have ks: "list_all fan_in ks"
      by simp
    with i imp have "fan_in k'"
      by (simp add: list_all_length)
    with ks have a: "list_all fan_in (ks[i := k'])"
      by (rule list_all_update)
    have b: "list_all (\<lambda>k. \<not> is_Finished (t_pc k)) (ks[i := k']) =
             list_all (\<lambda>k. \<not> is_Finished (t_pc k)) ks"
      using i fin by (simp add: list_all_update_iff)
    have c: "list_all (\<lambda>k. is_Finished (t_pc k)) (ks[i := k']) =
             list_all (\<lambda>k. is_Finished (t_pc k)) ks"
      using i fin by (simp add: list_all_update_iff)
    have d: "int (length (filter (\<lambda>k. \<not> is_Finished (t_pc k)) (ks[i := k']))) =
             int (length (filter (\<lambda>k. \<not> is_Finished (t_pc k)) ks))"
      using fin by (simp add: filter_update_length[OF i])
    from f i show ?thesis
      unfolding t by (cases pc) (simp_all add: a b c d)
  qed
  then show ?case
    using t by simp
qed

subsection \<open>Moves of the whole crawl\<close>

lemma step_cases [consumes 1, case_names main root_send task]:
  assumes "step fetch c mv = Some c'"
  obtains
    (main) b bs where
      "mv = Main" "\<not> returned c" "is_Finished (t_pc (root c))" "doneChan c = b # bs"
      "c' = c\<lparr>doneChan := bs, returned := True\<rparr>"
  | (root_send) 
      "mv = Go []" "is_Signal (t_pc (root c))" "doneChan c = []"
      "c' = c\<lparr>root := finish (root c), doneChan := [True]\<rparr>"
  | (task) p sh' t' where
      "mv = Go p" "step_task fetch [] p (shared c) (root c) = Some (sh', t')"
      "c' = c\<lparr>shared := sh', root := t'\<rparr>"
  using assms unfolding step_def
  by (cases mv) (auto split: if_splits list.splits option.splits)

lemma run_invariant:
  assumes "run fetch c mvs = Some c'" and "I c"
    and "\<And>c mv c'. I c \<Longrightarrow> step fetch c mv = Some c' \<Longrightarrow> I c'"
  shows "I c'"
  using assms(1,2)
proof (induction mvs arbitrary: c)
  case Nil
  then show ?case by simp
next
  case (Cons mv mvs)
  then obtain c1 where s: "step fetch c mv = Some c1" and r: "run fetch c1 mvs = Some c'"
    by (auto split: option.splits)
  from assms(3)[OF Cons.prems(2) s] have "I c1" .
  with Cons.IH[OF r] show ?case by simp
qed

subsection \<open>The top-level call returns after every task\<close>

lemma fan_in_Crawl: "fan_in (root (Crawl url depth fs))"
  by (simp add: Crawl_def)

lemma step_barrier:
  assumes "fan_in (root c) \<and> (returned c \<longrightarrow> is_Finished (t_pc (root c)))"
    and "step fetch c mv = Some c'"
  shows "fan_in (root c') \<and> (returned c' \<longrightarrow> is_Finished (t_pc (root c')))"
  using assms(2)
proof (cases rule: step_cases)
  case (main b bs)
  with assms(1) show ?thesis by simp
next
  case root_send
  with assms(1) show ?thesis by (simp add: fan_in_finish)
next
  case (task p sh' t')
  from step_task_fan_in[OF task(2)] assms(1) task(3) show ?thesis by simp
qed

lemma run_barrier:
  assumes "run fetch (Crawl url depth fs) mvs = Some c"
  shows "fan_in (root c) \<and> (returned c \<longrightarrow> is_Finished (t_pc (root c)))"
  using assms
proof (rule run_invariant)
  show "fan_in (root (Crawl url depth fs)) \<and>
        (returned (Crawl url depth fs) \<longrightarrow> is_Finished (t_pc (root (Crawl url depth fs))))"
    by (simp add: Crawl_def)
qed (rule step_barrier)

text \<open>
  C1. Whatever the fetcher, the depth, the start URL and the schedule: when the
  top-level \<open>Crawl\<close> has returned, every task of the tree has completed its send and
  returned. At every moment each task keeps the fan-in discipline: the \<open>count\<close> of a
  task in its wait loop is the number of its children that have not yet completed
  their send, so it signals only after as many receives as it started children.
\<close>

theorem Crawl_barrier:
  assumes "run fetch (Crawl url depth fs) mvs = Some c"
  shows "fan_in (root c) \<and> (returned c \<longrightarrow> all_finished (root c))"
  using run_barrier[OF assms] by (auto intro: fan_in_finished)

theorem Crawl_barrier_witness:
  "reaches (Fetch web_abcd 10) (Crawl ''http://a'' 2 fs0) sched_abcd
     (\<lambda>c. returned c \<and> fan_in (root c) \<and> all_finished (root c))"
proof -
  have "reaches (Fetch web_abcd 10) (Crawl ''http://a'' 2 fs0) sched_abcd returned"
    by code_simp
  then obtain c where r: "run (Fetch web_abcd 10) (Crawl ''http://a'' 2 fs0) sched_abcd = Some c"
    and "returned c"
    by (auto simp: reaches_def split: option.splits)
  with Crawl_barrier[OF r] show ?thesis
    by (simp add: reaches_def)
qed

subsection \<open>The history map and the claimed URLs\<close>

lemma sum_list_update_split:
  fixes f :: "'a \<Rightarrow> 'b multiset"
  assumes "i < length ks"
  shows "\<exists>F. sum_list (map f ks) = f (ks ! i) + F \<and> (\<forall>k. sum_list (map f (ks[i := k])) = f k + F)"
proof -
  let ?F = "sum_list (map f (take i ks)) + sum_list (map f (drop (Suc i) ks))"
  have a: "ks = take i ks @ ks ! i # drop (Suc i) ks"
    using assms by (rule id_take_nth_drop)
  have b: "ks[i := k] = take i ks @ k # drop (Suc i) ks" for k
    using assms by (rule upd_conv_take_nth_drop)
  have "sum_list (map f ks) = sum_list (map f (take i ks @ ks ! i # drop (Suc i) ks))"
    using a by simp
  then have "sum_list (map f ks) = f (ks ! i) + ?F"
    by (simp add: ac_simps)
  moreover have "sum_list (map f (ks[i := k])) = f k + ?F" for k
    unfolding b by (simp add: ac_simps)
  ultimately show ?thesis by blast
qed

lemma effect_frame:
  assumes "effect M U M' U'"
  shows "effect (M + F) (U + G) (M' + F) (U' + G)"
  using assms unfolding effect_def
proof (elim disjE conjE exE)
  assume "M' = M" "U' \<subseteq># U"
  then show "(M' + F = M + F \<and> U' + G \<subseteq># U + G) \<or>
    (\<exists>m u. m \<in># M + F \<and> \<not> lookup m u \<and> M' + F = M + F - {#m#} + {#m(u \<mapsto> True)#} \<and> U' + G = U + G + {#u#})"
    by simp
next
  fix m u
  assume "m \<in># M" "\<not> lookup m u" "M' = M - {#m#} + {#m(u \<mapsto> True)#}" "U' = U + {#u#}"
  then have "m \<in># M + F \<and> \<not> lookup m u \<and> M' + F = M + F - {#m#} + {#m(u \<mapsto> True)#} \<and> U' + G = U + G + {#u#}"
    by simp
  then show "(M' + F = M + F \<and> U' + G \<subseteq># U + G) \<or>
    (\<exists>m u. m \<in># M + F \<and> \<not> lookup m u \<and> M' + F = M + F - {#m#} + {#m(u \<mapsto> True)#} \<and> U' + G = U + G + {#u#})"
    by blast
qed

lemma step_task_effect:
  assumes "step_task fetch pre p sh t = Some (sh', t')"
  shows "effect (inChan sh + held t) (fetched sh + starts t) (inChan sh' + held t') (fetched sh' + starts t')"
  using assms
proof (induction rule: step_task_induct)
  case (local pre t t')
  then show ?case
  proof (cases rule: local_step_cases)
    case (spawn url depth us cnt ks m u rest)
    then show ?thesis
      unfolding effect_def by (intro disjI2 exI[of _ m] exI[of _ u]) simp
  qed (simp_all add: effect_def inChan_def fetched_def)
next
  case (recv pre i t)
  obtain url depth pc us cnt ks where t: "t = Task url depth pc us cnt ks"
    by (cases t)
  obtain F where F: "sum_list (map held ks) = held (ks ! i) + F"
      "\<And>k. sum_list (map held (ks[i := k])) = held k + F"
    using sum_list_update_split[of i ks held] recv(1) t by auto
  obtain G where G: "sum_list (map starts ks) = starts (ks ! i) + G"
      "\<And>k. sum_list (map starts (ks[i := k])) = starts k + G"
    using sum_list_update_split[of i ks starts] recv(1) t by auto
  have "held (finish (ks ! i)) = held (ks ! i)" "starts (finish (ks ! i)) = starts (ks ! i)"
    using recv(2) t by (cases "ks ! i"; cases "t_pc (ks ! i)"; simp)+
  then have "held (receive i t) = held t" "starts (receive i t) = starts t"
    using t F G by simp_all
  with recv show ?case
    by (simp add: effect_def)
next
  case (desc pre i q t k')
  obtain url depth pc us cnt ks where t: "t = Task url depth pc us cnt ks"
    by (cases t)
  obtain F where F: "sum_list (map held ks) = held (ks ! i) + F"
      "\<And>k. sum_list (map held (ks[i := k])) = held k + F"
    using sum_list_update_split[of i ks held] desc(1) t by auto
  obtain G where G: "sum_list (map starts ks) = starts (ks ! i) + G"
      "\<And>k. sum_list (map starts (ks[i := k])) = starts k + G"
    using sum_list_update_split[of i ks starts] desc(1) t by auto
  let ?H = "(case pc of Dispatch m rest \<Rightarrow> {#m#} | Release m \<Rightarrow> {#m#} | _ \<Rightarrow> {#}) + F"
  let ?S = "(if is_Start pc then {#url#} else {#}) + G"
  from desc(3) t have "effect (inChan sh + held (ks ! i)) (fetched sh + starts (ks ! i))
      (inChan sh' + held k') (fetched sh' + starts k')"
    by simp
  from effect_frame[OF this, of ?H ?S] show ?case
    unfolding t by (simp add: F G ac_simps)
qed

lemma held_finish: "is_Signal (t_pc t) \<Longrightarrow> held (finish t) = held t"
  by (cases t; cases "t_pc t") simp_all

lemma starts_finish: "is_Signal (t_pc t) \<Longrightarrow> starts (finish t) = starts t"
  by (cases t; cases "t_pc t") simp_all

lemma claimed_once_Crawl: "claimed_once (Crawl url depth fs)"
  unfolding claimed_once_def
  by (rule exI[of _ "[url \<mapsto> True]"]) (simp add: Crawl_def inChan_def fetched_def lookup_def)

lemma claimed_once_effect:
  assumes "effect M U M' U'"
    and "M = {#V#}" and "\<forall>u. u \<in># U \<longrightarrow> lookup V u" and "\<forall>u. count U u \<le> 1"
  shows "\<exists>V'. M' = {#V'#} \<and> (\<forall>u. u \<in># U' \<longrightarrow> lookup V' u) \<and> (\<forall>u. count U' u \<le> 1)"
  using assms(1) unfolding effect_def
proof (elim disjE conjE exE)
  assume a: "M' = M" "U' \<subseteq># U"
  have "\<forall>u. u \<in># U' \<longrightarrow> lookup V u"
    using a(2) assms(3) by (meson mset_subset_eqD)
  moreover have "\<forall>u. count U' u \<le> 1"
    using a(2) assms(4) by (meson le_trans mset_subset_eq_count)
  ultimately show ?thesis
    using a(1) assms(2) by blast
next
  fix m u
  assume a: "m \<in># M" "\<not> lookup m u" "M' = M - {#m#} + {#m(u \<mapsto> True)#}" "U' = U + {#u#}"
  from a(1) assms(2) have m: "m = V" by simp
  then have M': "M' = {#V(u \<mapsto> True)#}"
    using a(3) assms(2) by simp
  have nu: "u \<notin># U"
    using a(2) m assms(3) by blast
  have "\<forall>x. x \<in># U' \<longrightarrow> lookup (V(u \<mapsto> True)) x"
    using a(4) assms(3) by (auto simp: lookup_def)
  moreover have "\<forall>x. count U' x \<le> 1"
    using a(4) assms(4) nu by (auto simp: not_in_iff)
  ultimately show ?thesis
    using M' by blast
qed

lemma step_claimed_once:
  assumes "claimed_once c" and "step fetch c mv = Some c'"
  shows "claimed_once c'"
  using assms(2)
proof (cases rule: step_cases)
  case (main b bs)
  with assms(1) show ?thesis by (simp add: claimed_once_def)
next
  case root_send
  with assms(1) show ?thesis by (simp add: claimed_once_def held_finish starts_finish)
next
  case (task p sh' t')
  from assms(1) obtain V where V: "inChan (shared c) + held (root c) = {#V#}"
    "\<forall>u. u \<in># fetched (shared c) + starts (root c) \<longrightarrow> lookup V u"
    "\<forall>u. count (fetched (shared c) + starts (root c)) u \<le> 1"
    unfolding claimed_once_def by blast
  from claimed_once_effect[OF step_task_effect[OF task(2)] V]
  show ?thesis
    unfolding claimed_once_def using task(3) by simp
qed

lemma run_claimed_once:
  assumes "run fetch (Crawl url depth fs) mvs = Some c"
  shows "claimed_once c"
  using assms claimed_once_Crawl by (rule run_invariant) (rule step_claimed_once)

lemma claimed_once_distinct:
  assumes "claimed_once c"
  shows "distinct (map snd (fetchLog (shared c)))"
proof -
  from assms have "\<forall>u. count (mset (map snd (fetchLog (shared c)))) u \<le> 1"
    unfolding claimed_once_def fetched_def
    by (metis add_leD1 count_union)
  then show ?thesis
    by (metis count_mset_0_iff distinct_count_atmost_1 le_neq_implies_less less_one)
qed

text \<open>
  C2. Whatever the fetcher, the depth, the start URL and the schedule, no URL is passed
  to \<open>Fetch\<close> twice. The top-level \<open>Crawl\<close> starts with the start URL marked in the
  map; at every moment there is one history map, either in the channel or held by one
  task, so the check and the mark of lines 97-98 are made by the only holder; the map
  marks every URL that has been fetched or is the URL of a task still to start; and no
  such URL occurs twice (\<open>claimed_once\<close>). For a URL that the map marks, the loop of
  lines 96-102 starts no child and goes on to the next URL.
\<close>

theorem Crawl_fetches_once:
  assumes "run fetch (Crawl url depth fs) mvs = Some c"
  shows "distinct (map snd (fetchLog (shared c))) \<and> claimed_once c
       \<and> mapAccess (shared (Crawl url depth fs)) = Some [url \<mapsto> True]
       \<and> lookup [url \<mapsto> True] url
       \<and> (\<forall>p sh u' dp m v rest us cnt ks. lookup m v \<longrightarrow>
            local_step fetch p sh (Task u' dp (Dispatch m (v # rest)) us cnt ks) =
              Some (sh, Task u' dp (Dispatch m rest) us cnt ks))"
  using run_claimed_once[OF assms]
  by (simp add: claimed_once_distinct Crawl_def lookup_def)

theorem Crawl_fetches_once_witness:
  "reaches (Fetch web_cycle 10) (Crawl ''http://a'' 3 fs0) sched_cycle
     (\<lambda>c. returned c \<and> map snd (fetchLog (shared c)) = [''http://a'', ''http://b'']
          \<and> distinct (map snd (fetchLog (shared c))) \<and> claimed_once c)"
proof -
  have "reaches (Fetch web_cycle 10) (Crawl ''http://a'' 3 fs0) sched_cycle
     (\<lambda>c. returned c \<and> map snd (fetchLog (shared c)) = [''http://a'', ''http://b''])"
    by code_simp
  then obtain c where r: "run (Fetch web_cycle 10) (Crawl ''http://a'' 3 fs0) sched_cycle = Some c"
    and "returned c \<and> map snd (fetchLog (shared c)) = [''http://a'', ''http://b'']"
    by (auto simp: reaches_def split: option.splits)
  with Crawl_fetches_once[OF r] show ?thesis
    by (simp add: reaches_def)
qed

subsection \<open>Depth\<close>

lemma finish_sel [simp]:
  "t_url (finish k) = t_url k" "t_depth (finish k) = t_depth k" "t_kids (finish k) = t_kids k"
  by (cases k; simp)+

lemma step_task_url:
  assumes "step_task fetch pre p sh t = Some (sh', t')"
  shows "t_url t' = t_url t \<and> t_depth t' = t_depth t"
  using assms
proof (induction rule: step_task_induct)
  case (local pre t t')
  then show ?case
    by (cases rule: local_step_cases) auto
next
  case (recv pre i t)
  then show ?case by (cases t) simp
next
  case (desc pre i q t k')
  then show ?case by (cases t) simp
qed

lemma step_task_depth_ok:
  assumes "step_task fetch pre p sh t = Some (sh', t')"
  shows "\<forall>lvl. depth_ok d lvl t \<longrightarrow> depth_ok d lvl t'"
  using assms
proof (induction rule: step_task_induct)
  case (local pre t t')
  then show ?case
    by (cases rule: local_step_cases) (auto simp: list_all_iff)
next
  case (recv pre i t)
  obtain url depth pc us cnt ks where t: "t = Task url depth pc us cnt ks"
    by (cases t)
  have f: "depth_ok d l (finish k) = depth_ok d l k" "t_url (finish k) = t_url k"
    if "is_Signal (t_pc k)" for l k
    using that by (cases k; cases "t_pc k"; simp)+
  from recv t have pc: "pc = Await"
    by (cases pc) simp_all
  show ?case
  proof (intro allI impI)
    fix lvl assume a: "depth_ok d lvl t"
    with t recv(1) have "t_url (ks ! i) \<in> set us \<and> depth_ok d (Suc lvl) (ks ! i)"
      by (simp add: list_all_length)
    then have "list_all (\<lambda>k. t_url k \<in> set us \<and> depth_ok d (Suc lvl) k) (ks[i := finish (ks ! i)])"
      using a t recv(2) by (intro list_all_update) (simp_all add: f)
    with a t pc recv(1) show "depth_ok d lvl (receive i t)"
      by auto
  qed
next
  case (desc pre i q t k')
  obtain url depth pc us cnt ks where t: "t = Task url depth pc us cnt ks"
    by (cases t)
  from step_task_url[OF desc(2)] t have u: "t_url k' = t_url (ks ! i)"
    by simp
  show ?case
  proof (intro allI impI)
    fix lvl assume a: "depth_ok d lvl t"
    with t desc(1) have "t_url (ks ! i) \<in> set us \<and> depth_ok d (Suc lvl) (ks ! i)"
      by (simp add: list_all_length)
    with desc(3) u t have "t_url k' \<in> set us \<and> depth_ok d (Suc lvl) k'"
      by simp
    then have "list_all (\<lambda>k. t_url k \<in> set us \<and> depth_ok d (Suc lvl) k) (ks[i := k'])"
      using a t by (intro list_all_update) simp_all
    with a t desc(1) show "depth_ok d lvl (set_kid i k' t)"
      by (cases pc) auto
  qed
qed

lemma depth_ok_task_at:
  "depth_ok d lvl t \<Longrightarrow> task_at t p = Some x \<Longrightarrow> depth_ok d (lvl + length p) x"
proof (induction p arbitrary: t lvl)
  case Nil
  then show ?case by simp
next
  case (Cons i q)
  obtain url depth pc us cnt ks where t: "t = Task url depth pc us cnt ks"
    by (cases t)
  from Cons.prems t have i: "i < length ks" and x: "task_at (ks ! i) q = Some x"
    by (auto split: if_splits)
  from Cons.prems(1) t i have "depth_ok d (Suc lvl) (ks ! i)"
    by (simp add: list_all_length)
  from Cons.IH[OF this x] show ?case by simp
qed

lemma task_at_append:
  "task_at t (p @ q) = (case task_at t p of None \<Rightarrow> None | Some x \<Rightarrow> task_at x q)"
  by (induction p arbitrary: t) auto

lemma step_task_task_at:
  assumes "step_task fetch pre q sh t = Some (sh', t')"
  shows "\<forall>p x. task_at t p = Some x \<longrightarrow> (\<exists>x'. task_at t' p = Some x' \<and> t_url x' = t_url x)"
  using assms
proof (induction rule: step_task_induct)
  case (local pre t t')
  then have k: "t_url t' = t_url t"
    "\<forall>j<length (t_kids t). j < length (t_kids t') \<and> t_kids t' ! j = t_kids t ! j"
    by (cases rule: local_step_cases; auto simp: nth_append)+
  show ?case
  proof (intro allI impI)
    fix p x assume "task_at t p = Some x"
    then show "\<exists>x'. task_at t' p = Some x' \<and> t_url x' = t_url x"
      using k by (cases p) (auto split: if_splits)
  qed
next
  case (recv pre i t)
  obtain url depth pc us cnt ks where t: "t = Task url depth pc us cnt ks"
    by (cases t)
  show ?case
  proof (intro allI impI)
    fix p x assume a: "task_at t p = Some x"
    show "\<exists>x'. task_at (receive i t) p = Some x' \<and> t_url x' = t_url x"
    proof (cases p)
      case Nil
      with a t show ?thesis by auto
    next
      case (Cons j r)
      with a t have j: "j < length ks" and x: "task_at (ks ! j) r = Some x"
        by (auto split: if_splits)
      show ?thesis
      proof (cases "j = i")
        case True
        with Cons t j x show ?thesis
          by (cases r) (auto split: if_splits)
      next
        case False
        with Cons t j x show ?thesis by simp
      qed
    qed
  qed
next
  case (desc pre i q t k')
  obtain url depth pc us cnt ks where t: "t = Task url depth pc us cnt ks"
    by (cases t)
  show ?case
  proof (intro allI impI)
    fix p x assume a: "task_at t p = Some x"
    show "\<exists>x'. task_at (set_kid i k' t) p = Some x' \<and> t_url x' = t_url x"
    proof (cases p)
      case Nil
      with a t show ?thesis by auto
    next
      case (Cons j r)
      with a t have j: "j < length ks" and x: "task_at (ks ! j) r = Some x"
        by (auto split: if_splits)
      show ?thesis
      proof (cases "j = i")
        case True
        with Cons t j x desc(3) show ?thesis by simp
      next
        case False
        with Cons t j x show ?thesis by simp
      qed
    qed
  qed
qed

lemma step_task_log:
  assumes "step_task fetch pre p sh t = Some (sh', t')"
  shows "fetchLog sh' = fetchLog sh \<or>
    (\<exists>x. task_at t p = Some x \<and> 0 < t_depth x \<and> fetchLog sh' = fetchLog sh @ [(pre @ p, t_url x)])"
  using assms
proof (induction rule: step_task_induct)
  case (local pre t t')
  then show ?case
    by (cases rule: local_step_cases) auto
next
  case (recv pre i t)
  then show ?case by simp
next
  case (desc pre i q t k')
  then show ?case by auto
qed

lemma depth_ok_finish: "depth_ok d lvl t \<Longrightarrow> is_Signal (t_pc t) \<Longrightarrow> depth_ok d lvl (finish t)"
  by (cases t; cases "t_pc t") simp_all

lemma task_at_finish:
  "task_at t p = Some x \<Longrightarrow> \<exists>x'. task_at (finish t) p = Some x' \<and> t_url x' = t_url x"
  by (cases p) (auto split: if_splits)

lemma step_depth:
  assumes "depth_ok d 0 (root c) \<and> log_ok d c" and "step fetch c mv = Some c'"
  shows "depth_ok d 0 (root c') \<and> log_ok d c'"
  using assms(2)
proof (cases rule: step_cases)
  case (main b bs)
  with assms(1) show ?thesis by (simp add: log_ok_def)
next
  case root_send
  have "\<exists>x. task_at (finish (root c)) q = Some x \<and> t_url x = u"
    if "(q, u) \<in> set (fetchLog (shared c))" for q u
  proof -
    from that assms(1) obtain x where "task_at (root c) q = Some x" "t_url x = u"
      unfolding log_ok_def by blast
    with task_at_finish[of "root c" q x] show ?thesis by auto
  qed
  with root_send assms(1) show ?thesis
    by (simp add: log_ok_def depth_ok_finish)
next
  case (task p sh' t')
  from assms(1) have d0: "depth_ok d 0 (root c)" and lg: "log_ok d c"
    by simp_all
  from step_task_depth_ok[OF task(2), of d] d0 have d1: "depth_ok d 0 t'"
    by simp
  have keep: "\<exists>x'. task_at t' q = Some x' \<and> t_url x' = t_url x"
    if "task_at (root c) q = Some x" for q x
    using step_task_task_at[OF task(2)] that by blast
  have "int (length q) < d \<and> (\<exists>x. task_at t' q = Some x \<and> t_url x = u)"
    if m: "(q, u) \<in> set (fetchLog sh')" for q u
  proof (cases "(q, u) \<in> set (fetchLog (shared c))")
    case True
    with lg obtain x where "int (length q) < d" "task_at (root c) q = Some x" "t_url x = u"
      unfolding log_ok_def by blast
    with keep show ?thesis by metis
  next
    case False
    with m step_task_log[OF task(2)] obtain x where
      x: "task_at (root c) p = Some x" "0 < t_depth x" and q: "q = p" "u = t_url x"
      by auto
    from depth_ok_task_at[OF d0 x(1)] have "t_depth x = d - int (length p)"
      by (cases x) simp
    with x(2) q keep[OF x(1)] show ?thesis by auto
  qed
  then have "log_ok d c'"
    unfolding log_ok_def using task(3) by simp
  with d1 task(3) show ?thesis by simp
qed

lemma run_depth:
  assumes "run fetch (Crawl url d fs) mvs = Some c"
  shows "depth_ok d 0 (root c) \<and> log_ok d c"
  using assms
proof (rule run_invariant)
  show "depth_ok d 0 (root (Crawl url d fs)) \<and> log_ok d (Crawl url d fs)"
    by (simp add: Crawl_def log_ok_def)
qed (rule step_depth)

text \<open>
  C3. For a crawl of depth \<open>d\<close>, whatever the fetcher and the schedule: every call of
  \<open>Fetch\<close> was made by a task less than \<open>d\<close> spawns away from the root, for its own
  URL; a task \<open>k\<close> spawns away from the root has remaining depth \<open>d - k\<close>, and a spawned
  task exists only with \<open>k \<le> d\<close>; the URL of a child is one of the URLs that its
  parent's \<open>Fetch\<close> returned, so \<open>k\<close> spawns are \<open>k\<close> hops, and the child's depth is
  its parent's less one; and a task with \<open>depth \<le> 0\<close> goes to its send without
  calling \<open>Fetch\<close> and without touching the shared state.
\<close>

theorem Crawl_depth_bound:
  assumes "run fetch (Crawl url d fs) mvs = Some c"
  shows "(\<forall>p u. (p, u) \<in> set (fetchLog (shared c)) \<longrightarrow>
            int (length p) < d \<and> (\<exists>t. task_at (root c) p = Some t \<and> t_url t = u))
       \<and> (\<forall>p t. task_at (root c) p = Some t \<longrightarrow>
            t_depth t = d - int (length p) \<and> (p \<noteq> [] \<longrightarrow> int (length p) \<le> d))
       \<and> (\<forall>p i t k. task_at (root c) p = Some t \<longrightarrow> task_at (root c) (p @ [i]) = Some k \<longrightarrow>
            t_url k \<in> set (t_urls t) \<and> t_depth k = t_depth t - 1)
       \<and> (\<forall>sh p u dp us cnt ks. dp \<le> 0 \<longrightarrow>
            local_step fetch p sh (Task u dp Start us cnt ks) = Some (sh, Task u dp Signal us cnt ks))"
proof -
  have inv: "depth_ok d 0 (root c) \<and> log_ok d c"
    using assms by (rule run_depth)
  have dep: "t_depth t = d - int (length p)" if "task_at (root c) p = Some t" for p t
    using depth_ok_task_at[OF conjunct1[OF inv] that] by (cases t) simp
  have kid: "t_url k \<in> set (t_urls t) \<and> t_depth k = t_depth t - 1 \<and> 0 < t_depth t"
    if t: "task_at (root c) p = Some t" and k: "task_at (root c) (p @ [i]) = Some k" for p i t k
  proof -
    from k t have i: "i < length (t_kids t)" and kk: "k = t_kids t ! i"
      by (auto simp: task_at_append split: if_splits)
    from depth_ok_task_at[OF conjunct1[OF inv] t] i kk
    have "t_url k \<in> set (t_urls t)" "0 < t_depth t"
      by (cases t; auto simp: list_all_length)+
    with dep[OF t] dep[OF k] show ?thesis by simp
  qed
  have lvl: "int (length p) \<le> d" if t: "task_at (root c) p = Some t" and ne: "p \<noteq> []" for p t
  proof -
    from ne obtain q i where p: "p = q @ [i]"
      by (metis rev_exhaust)
    with t obtain y where y: "task_at (root c) q = Some y"
      by (auto simp: task_at_append split: option.splits)
    from kid[OF y t[unfolded p]] dep[OF y] p show ?thesis by simp
  qed
  show ?thesis
    using inv dep kid lvl unfolding log_ok_def by (intro conjI allI impI) (simp_all; blast)+
qed

theorem Crawl_depth_bound_witness:
  "reaches (Fetch web_abcd 10) (Crawl ''http://a'' 2 fs0) sched_abcd
     (\<lambda>c. fetchLog (shared c) = [([], ''http://a''), ([0], ''http://b''), ([1], ''http://c'')]
        \<and> map_option t_url (task_at (root c) [0, 0]) = Some ''http://d''
        \<and> (\<forall>p u. (p, u) \<in> set (fetchLog (shared c)) \<longrightarrow>
            int (length p) < 2 \<and> (\<exists>t. task_at (root c) p = Some t \<and> t_url t = u))
        \<and> (\<forall>p t. task_at (root c) p = Some t \<longrightarrow>
            t_depth t = 2 - int (length p) \<and> (p \<noteq> [] \<longrightarrow> int (length p) \<le> 2)))"
proof -
  have "reaches (Fetch web_abcd 10) (Crawl ''http://a'' 2 fs0) sched_abcd
     (\<lambda>c. fetchLog (shared c) = [([], ''http://a''), ([0], ''http://b''), ([1], ''http://c'')]
        \<and> map_option t_url (task_at (root c) [0, 0]) = Some ''http://d'')"
    by code_simp
  then obtain c where r: "run (Fetch web_abcd 10) (Crawl ''http://a'' 2 fs0) sched_abcd = Some c"
    and "fetchLog (shared c) = [([], ''http://a''), ([0], ''http://b''), ([1], ''http://c'')]
        \<and> map_option t_url (task_at (root c) [0, 0]) = Some ''http://d''"
    by (auto simp: reaches_def split: option.splits)
  with Crawl_depth_bound[OF r] show ?thesis
    unfolding reaches_def r by simp
qed

subsection \<open>The limit and the counter\<close>

lemma tokenLoop_anchors:
  "\<forall>u \<in> set ls. prefix ''http'' u \<and> \<not> isFile u \<Longrightarrow> cc \<le> mx + 1 \<Longrightarrow>
   tokenLoop mx (map anchor ls) ttl us cc =
     (if int (length ls) \<le> mx + 1 - cc then Completed else Aborted, ttl,
      us @ take (nat (mx + 1 - cc)) ls, cc + int (min (length ls) (nat (mx + 1 - cc))))"
proof (induction ls arbitrary: us cc)
  case Nil then show ?case by simp
next
  case (Cons u ls)
  show ?case
  proof (cases "cc > mx")
    case True
    then have "cc = mx + 1" using Cons.prems by simp
    then show ?thesis using Cons.prems by (simp add: anchor_def getHref_def Index_0_iff)
  next
    case False
    then have le: "cc + 1 \<le> mx + 1" by simp
    have n: "nat (mx + 1 - cc) = Suc (nat (mx + 1 - (cc + 1)))" using False by simp
    have "tokenLoop mx (map anchor (u # ls)) ttl us cc = tokenLoop mx (map anchor ls) ttl (us @ [u]) (cc + 1)"
      using Cons.prems False by (simp add: anchor_def getHref_def Index_0_iff)
    also have "\<dots> = (if int (length ls) \<le> mx + 1 - (cc + 1) then Completed else Aborted, ttl,
      (us @ [u]) @ take (nat (mx + 1 - (cc + 1))) ls, (cc + 1) + int (min (length ls) (nat (mx + 1 - (cc + 1)))))"
      using Cons.IH[OF _ le] Cons.prems by simp
    finally show ?thesis unfolding n by (auto simp: min_def)
  qed
qed

text \<open>From a counter of zero and with a maximum \<open>N \<ge> 0\<close>, a page of more than \<open>N\<close>
  links that are http links and not files gets \<open>N + 1\<close> of them recorded: the check of
  line 194 is \<open>countCrawled > *maxURLS\<close> and comes before the increment.\<close>

lemma Fetch_page_of_links:
  assumes "\<forall>u \<in> set ls. prefix ''http'' u \<and> \<not> isFile u" and "0 \<le> N" and "N < int (length ls)"
    and "Get url = Some (map anchor ls)"
  shows "map_option urls (fetcherMap (snd (Fetch Get N \<lparr>countCrawled = 0, fetcherMap = fm\<rparr> url)) url)
            = Some (take (nat N + 1) ls)"
proof -
  have "tokenLoop N (map anchor ls) [] [] 0 =
     (if int (length ls) \<le> N + 1 - 0 then Completed else Aborted, [],
      [] @ take (nat (N + 1 - 0)) ls, 0 + int (min (length ls) (nat (N + 1 - 0))))"
    using assms(1,2) by (intro tokenLoop_anchors) simp_all
  moreover have "nat (N + 1) = nat N + 1" using assms(2) by simp
  ultimately show ?thesis
    using assms(4) by (simp add: Fetch_def)
qed

text \<open>
  C4. The claim is that with a maximum of \<open>N\<close> and a counter of zero, no more than
  \<open>N\<close> links of one page are accepted. With \<open>N = 1\<close> and a page of three links the
  code accepts two: the first link is checked against a counter of 0, the second
  against 1, and only the third against 2, which exceeds the maximum.
\<close>

theorem Fetch_accepts_beyond_max:
  "fst (Fetch web_three 1 fs0 ''http://a'') = Inl Error
   \<and> map_option urls (fetcherMap (snd (Fetch web_three 1 fs0 ''http://a'')) ''http://a'')
       = Some [''http://b'', ''http://c'']
   \<and> countCrawled (snd (Fetch web_three 1 fs0 ''http://a'')) = 2"
  by code_simp

text \<open>
  C5, as stated, fails: \<open>Fetch\<close> does not look at what has been discovered. A page
  that links twice to one URL yields that URL twice, one new URL and an increment
  of two.
\<close>

theorem counter_counts_duplicates:
  "fst (Fetch web_dup 10 fs0 ''http://a'') = Inr [''http://b'', ''http://b'']
   \<and> countCrawled (snd (Fetch web_dup 10 fs0 ''http://a'')) = countCrawled fs0 + 2
   \<and> card (set [''http://b'', ''http://b'']) = 1"
  by code_simp

text \<open>
  C5, amended. The counter is incremented once for every link that \<open>Fetch\<close> accepts: a
  call that reads a page raises \<open>countCrawled\<close> by the length of the URL list it
  records for the page, repetitions included, and a call that returns URLs by the
  length of what it returns.
\<close>

theorem counter_counts_accepted_links:
  assumes "Get url = Some toks"
  shows "countCrawled (snd (Fetch Get mx fs url)) =
           countCrawled fs + int (length (urls (the (fetcherMap (snd (Fetch Get mx fs url)) url))))
       \<and> (\<forall>us. fst (Fetch Get mx fs url) = Inr us \<longrightarrow>
             countCrawled (snd (Fetch Get mx fs url)) = countCrawled fs + int (length us))"
proof -
  obtain e ttl us cc where l: "tokenLoop mx toks [] [] (countCrawled fs) = (e, ttl, us, cc)"
    by (metis prod_cases4)
  from tokenLoop_urls[OF l] have "cc = countCrawled fs + int (length us)"
    by auto
  with assms l show ?thesis
    by (cases e) (simp_all add: Fetch_def)
qed

theorem counter_counts_accepted_links_witness:
  "web_dup ''http://a'' = Some [anchor ''http://b'', anchor ''http://b'']
   \<and> countCrawled (snd (Fetch web_dup 10 fs0 ''http://a'')) = 2
   \<and> length (urls (the (fetcherMap (snd (Fetch web_dup 10 fs0 ''http://a'')) ''http://a''))) = 2"
proof -
  have g: "web_dup ''http://a'' = Some [anchor ''http://b'', anchor ''http://b'']"
    by (simp add: web_dup_def)
  have "countCrawled (snd (Fetch web_dup 10 fs0 ''http://a'')) = 2"
    by code_simp
  with counter_counts_accepted_links[where Get = web_dup and url = "''http://a''" and mx = 10
      and fs = fs0, OF g] g
  show ?thesis
    by (simp add: fs0_def)
qed

subsection \<open>What a move does to the fetcher's state, the fetched URLs and finished leaves\<close>

lemma step_task_fstate:
  assumes "step_task fetch pre p sh t = Some (sh', t')"
  shows "(fstate sh' = fstate sh \<and> fetchLog sh' = fetchLog sh) \<or>
    (\<exists>x. task_at t p = Some x \<and> is_Start (t_pc x) \<and> 0 < t_depth x
        \<and> mapAccess sh' = mapAccess sh \<and> held t' = held t
        \<and> fetchLog sh' = fetchLog sh @ [(pre @ p, t_url x)]
        \<and> fstate sh' = snd (fetch (fstate sh) (t_url x)))"
  using assms
proof (induction rule: step_task_induct)
  case (local pre t t')
  then show ?case
    by (cases rule: local_step_cases) auto
next
  case (recv pre i t)
  then show ?case by simp
next
  case (desc pre i q t k')
  obtain url depth pc us cnt ks where t: "t = Task url depth pc us cnt ks"
    by (cases t)
  obtain F where F: "sum_list (map held ks) = held (ks ! i) + F"
      "\<And>k. sum_list (map held (ks[i := k])) = held k + F"
    using sum_list_update_split[of i ks held] desc(1) t by auto
  from desc(3) show ?case
  proof
    assume "fstate sh' = fstate sh \<and> fetchLog sh' = fetchLog sh"
    then show ?thesis by simp
  next
    assume "\<exists>x. task_at (t_kids t ! i) q = Some x \<and> is_Start (t_pc x) \<and> 0 < t_depth x
        \<and> mapAccess sh' = mapAccess sh \<and> held k' = held (t_kids t ! i)
        \<and> fetchLog sh' = fetchLog sh @ [((pre @ [i]) @ q, t_url x)]
        \<and> fstate sh' = snd (fetch (fstate sh) (t_url x))"
    then obtain x where x: "task_at (t_kids t ! i) q = Some x" "is_Start (t_pc x)" "0 < t_depth x"
        "mapAccess sh' = mapAccess sh" "held k' = held (t_kids t ! i)"
        "fetchLog sh' = fetchLog sh @ [((pre @ [i]) @ q, t_url x)]"
        "fstate sh' = snd (fetch (fstate sh) (t_url x))"
      by blast
    have "held (set_kid i k' t) = held t"
      using t F x(5) by simp
    with x desc(1) show ?thesis
      by auto
  qed
qed

lemma step_task_urls_ok:
  assumes "step_task fetch pre p sh t = Some (sh', t')"
    and "\<And>fs url us fs'. fetch fs url = (Inr us, fs') \<Longrightarrow> list_all P us"
  shows "urls_ok P t \<longrightarrow> urls_ok P t'"
  using assms(1)
proof (induction rule: step_task_induct)
  case (local pre t t')
  then show ?case
    by (cases rule: local_step_cases) (auto dest: assms(2))
next
  case (recv pre i t)
  obtain url depth pc us cnt ks where t: "t = Task url depth pc us cnt ks"
    by (cases t)
  have "urls_ok P (finish k) = urls_ok P k" for k
    by (cases k) simp
  with recv(1) t show ?case
    by (auto simp: list_all_length nth_list_update)
next
  case (desc pre i q t k')
  obtain url depth pc us cnt ks where t: "t = Task url depth pc us cnt ks"
    by (cases t)
  with desc(1,3) show ?case
    by (auto simp: list_all_length nth_list_update)
qed

lemma step_task_leaf_done:
  assumes "step_task fetch pre q sh t = Some (sh', t')"
  shows "\<forall>p x. task_at t p = Some x \<longrightarrow> leaf_done x \<longrightarrow>
           (\<exists>x'. task_at t' p = Some x' \<and> leaf_done x')"
  using assms
proof (induction rule: step_task_induct)
  case (local pre t t')
  then have k: "\<not> leaf_done t"
    "\<forall>j<length (t_kids t). j < length (t_kids t') \<and> t_kids t' ! j = t_kids t ! j"
    by (cases rule: local_step_cases; auto simp: nth_append leaf_done_def)+
  show ?case
  proof (intro allI impI)
    fix p x assume "task_at t p = Some x" "leaf_done x"
    then show "\<exists>x'. task_at t' p = Some x' \<and> leaf_done x'"
      using k by (cases p) (auto split: if_splits)
  qed
next
  case (recv pre i t)
  obtain url depth pc us cnt ks where t: "t = Task url depth pc us cnt ks"
    by (cases t)
  from recv t have pc: "pc = Await"
    by (cases pc) simp_all
  have fl: "leaf_done (finish k)" if "leaf_done k" for k
    using that by (simp add: leaf_done_def)
  show ?case
  proof (intro allI impI)
    fix p x assume a: "task_at t p = Some x" "leaf_done x"
    show "\<exists>x'. task_at (receive i t) p = Some x' \<and> leaf_done x'"
    proof (cases p)
      case Nil
      with a t pc show ?thesis by (auto simp: leaf_done_def)
    next
      case (Cons j r)
      with a t have j: "j < length ks" and x: "task_at (ks ! j) r = Some x"
        by (auto split: if_splits)
      show ?thesis
      proof (cases "j = i")
        case True
        with Cons t j x a(2) show ?thesis
          by (cases r) (auto split: if_splits simp: fl)
      next
        case False
        with Cons t j x a(2) show ?thesis by auto
      qed
    qed
  qed
next
  case (desc pre i q t k')
  obtain url depth pc us cnt ks where t: "t = Task url depth pc us cnt ks"
    by (cases t)
  show ?case
  proof (intro allI impI)
    fix p x assume a: "task_at t p = Some x" "leaf_done x"
    show "\<exists>x'. task_at (set_kid i k' t) p = Some x' \<and> leaf_done x'"
    proof (cases p)
      case Nil
      with a t desc(1) show ?thesis by (auto simp: leaf_done_def)
    next
      case (Cons j r)
      with a t have j: "j < length ks" and x: "task_at (ks ! j) r = Some x"
        by (auto split: if_splits)
      show ?thesis
      proof (cases "j = i")
        case True
        with Cons t j x desc(3) a(2) show ?thesis by simp
      next
        case False
        with Cons t j x a(2) show ?thesis by auto
      qed
    qed
  qed
qed

lemma Fetch_links:
  assumes "Fetch Get mx fs url = (r, fs')"
  shows "(\<forall>us. r = Inr us \<longrightarrow> list_all accepted us)
       \<and> (\<forall>k res. fetcherMap fs' k = Some res \<longrightarrow>
            fetcherMap fs k = Some res \<or> (k = url \<and> list_all accepted (urls res)))"
proof (cases "Get url")
  case None
  with assms show ?thesis by (auto simp: Fetch_def)
next
  case (Some toks)
  obtain e ttl us cc where l: "tokenLoop mx toks [] [] (countCrawled fs) = (e, ttl, us, cc)"
    by (metis prod_cases4)
  from tokenLoop_urls[OF l] have "list_all accepted us"
    by (auto simp: list_all_iff accepted_def)
  with assms Some l show ?thesis
    by (cases e) (auto simp: Fetch_def split: if_splits)
qed

subsection \<open>Links through the crawl with the repository's fetcher\<close>

lemma urls_ok_finish: "urls_ok P (finish t) = urls_ok P t"
  by (cases t) simp

lemma step_urls_ok:
  assumes "urls_ok accepted (root c)" and "step (Fetch Get mx) c mv = Some c'"
  shows "urls_ok accepted (root c')"
  using assms(2)
proof (cases rule: step_cases)
  case (main b bs)
  with assms(1) show ?thesis by simp
next
  case root_send
  with assms(1) show ?thesis by (simp add: urls_ok_finish)
next
  case (task p sh' t')
  have "list_all accepted us" if "Fetch Get mx fs url = (Inr us, fs')" for fs url us fs'
    using Fetch_links[OF that] by simp
  from step_task_urls_ok[OF task(2), of accepted, OF this] assms(1) task(3)
  show ?thesis by simp
qed

lemma run_urls_ok:
  assumes "run (Fetch Get mx) (Crawl url d fs) mvs = Some c"
  shows "urls_ok accepted (root c)"
  using assms
proof (rule run_invariant)
  show "urls_ok accepted (root (Crawl url d fs))"
    by (simp add: Crawl_def)
qed (rule step_urls_ok)

lemma urls_ok_task_at:
  "urls_ok P t \<Longrightarrow> task_at t p = Some x \<Longrightarrow> urls_ok P x"
proof (induction p arbitrary: t)
  case Nil
  then show ?case by simp
next
  case (Cons i q)
  then show ?case
    by (cases t) (auto simp: list_all_length split: if_splits)
qed

text \<open>A spawned task, and so every call of \<open>Fetch\<close> but the root's, has a URL that
  \<open>Fetch\<close> accepted.\<close>

lemma run_spawned_accepted:
  assumes "run (Fetch Get mx) (Crawl url d fs) mvs = Some c"
    and "task_at (root c) p = Some t" and "p \<noteq> []"
  shows "accepted (t_url t)"
proof -
  from assms(3) obtain q i where p: "p = q @ [i]"
    by (metis rev_exhaust)
  with assms(2) obtain y where y: "task_at (root c) q = Some y"
    and i: "i < length (t_kids y)" and t: "t = t_kids y ! i"
    by (auto simp: task_at_append split: option.splits if_splits)
  from run_depth[OF assms(1)] have "depth_ok d 0 (root c)"
    by simp
  from depth_ok_task_at[OF this y] i t have "t_url t \<in> set (t_urls y)"
    by (cases y) (auto simp: list_all_length)
  moreover from urls_ok_task_at[OF run_urls_ok[OF assms(1)] y] have "list_all accepted (t_urls y)"
    by (cases y) simp
  ultimately show ?thesis
    by (simp add: list_all_iff)
qed

lemma run_fetched_accepted:
  assumes "run (Fetch Get mx) (Crawl url d fs) mvs = Some c"
    and "(p, u) \<in> set (fetchLog (shared c))" and "p \<noteq> []"
  shows "accepted u"
proof -
  from run_depth[OF assms(1)] assms(2) obtain t where "task_at (root c) p = Some t" "t_url t = u"
    unfolding log_ok_def by blast
  with run_spawned_accepted[OF assms(1) _ assms(3)] show ?thesis by blast
qed




subsection \<open>Filtered links\<close>

text \<open>
  C8, as stated, fails: nothing filters the start URL. A crawl that is started at a URL
  ending in \<open>.pdf\<close> passes it to \<open>Fetch\<close> (line 79) and stores it in the results map
  (line 214), so it is a crawled node and a page of the report.
\<close>

theorem file_start_url_is_crawled:
  "''.pdf'' \<in> set files \<and> suffix ''.pdf'' ''http://a/x.pdf''
   \<and> reaches (Fetch web_pdf 10) (Crawl ''http://a/x.pdf'' 1 fs0) sched_pdf
       (\<lambda>c. returned c \<and> t_url (root c) = ''http://a/x.pdf''
           \<and> fetchLog (shared c) = [([], ''http://a/x.pdf'')]
           \<and> map_option urls (fetcherMap (fstate (shared c)) ''http://a/x.pdf'') = Some [])"
proof -
  have "''.pdf'' \<in> set files"
    by (simp add: files_def)
  moreover have "suffix ''.pdf'' ''http://a/x.pdf''"
    by (simp add: suffix_def)
  moreover have "reaches (Fetch web_pdf 10) (Crawl ''http://a/x.pdf'' 1 fs0) sched_pdf
       (\<lambda>c. returned c \<and> t_url (root c) = ''http://a/x.pdf''
           \<and> fetchLog (shared c) = [([], ''http://a/x.pdf'')]
           \<and> map_option urls (fetcherMap (fstate (shared c)) ''http://a/x.pdf'') = Some [])"
    by code_simp
  ultimately show ?thesis
    by simp
qed

text \<open>
  C8, amended. A URL that ends in one of the eighteen suffixes of \<open>files\<close> is never
  among the URLs that \<open>Fetch\<close> returns, nor among those it records for a page it has
  read, whatever the page holds. In a crawl it is therefore never the URL of a spawned
  task, never fetched by one, and never among the URLs a task got from \<open>Fetch\<close>: it
  can be a node of the crawl only as the start URL that the caller gave.
\<close>

theorem file_links_filtered:
  assumes "x \<in> set files" and "suffix x u"
  shows "(\<forall>Get mx fs url us. fst (Fetch Get mx fs url) = Inr us \<longrightarrow> u \<notin> set us)
       \<and> (\<forall>Get mx fs url toks r. Get url = Some toks \<longrightarrow>
            fetcherMap (snd (Fetch Get mx fs url)) url = Some r \<longrightarrow> u \<notin> set (urls r))
       \<and> (\<forall>Get mx url d fs mvs c. run (Fetch Get mx) (Crawl url d fs) mvs = Some c \<longrightarrow>
            (\<forall>p t. task_at (root c) p = Some t \<longrightarrow> p \<noteq> [] \<longrightarrow> t_url t \<noteq> u)
          \<and> (\<forall>p. p \<noteq> [] \<longrightarrow> (p, u) \<notin> set (fetchLog (shared c)))
          \<and> (\<forall>p t. task_at (root c) p = Some t \<longrightarrow> u \<notin> set (t_urls t)))"
proof -
  from assms have nu: "\<not> accepted u"
    by (auto simp: accepted_def isFile_iff)
  have a: "u \<notin> set us" if "fst (Fetch Get mx fs url) = Inr us" for Get mx fs url us
  proof -
    from Fetch_links[OF surjective_pairing, of Get mx fs url] that have "list_all accepted us"
      by simp
    with nu show ?thesis by (auto simp: list_all_iff)
  qed
  have b: "u \<notin> set (urls r)"
    if "Get url = Some toks" "fetcherMap (snd (Fetch Get mx fs url)) url = Some r"
    for Get mx fs url toks r
  proof -
    obtain e ttl us cc where l: "tokenLoop mx toks [] [] (countCrawled fs) = (e, ttl, us, cc)"
      by (metis prod_cases4)
    from tokenLoop_urls[OF l] have "list_all accepted us"
      by (auto simp: list_all_iff accepted_def)
    moreover from that l have "urls r = us"
      by (cases e) (auto simp: Fetch_def)
    ultimately show ?thesis
      using nu by (auto simp: list_all_iff)
  qed
  have c1: "t_url t \<noteq> u"
    if "run (Fetch Get mx) (Crawl url d fs) mvs = Some c" "task_at (root c) p = Some t" "p \<noteq> []"
    for Get mx url d and fs :: fstate and mvs c p t
    using run_spawned_accepted[OF that] nu by auto
  have c2: "(p, u) \<notin> set (fetchLog (shared c))"
    if "run (Fetch Get mx) (Crawl url d fs) mvs = Some c" "p \<noteq> []"
    for Get mx url d and fs :: fstate and mvs c p
    using run_fetched_accepted[OF that(1) _ that(2)] nu by auto
  have c3: "u \<notin> set (t_urls t)"
    if "run (Fetch Get mx) (Crawl url d fs) mvs = Some c" "task_at (root c) p = Some t"
    for Get mx url d and fs :: fstate and mvs c p t
    using urls_ok_task_at[OF run_urls_ok[OF that(1)] that(2)] nu
    by (cases t) (auto simp: list_all_iff)
  show ?thesis
    by (intro conjI allI impI a b c1 c2 c3)
qed

theorem file_links_filtered_witness:
  "''.pdf'' \<in> set files \<and> suffix ''.pdf'' ''http://b/paper.pdf''
   \<and> reaches (Fetch web_mixed 10) (Crawl ''http://a'' 2 fs0) sched_mixed
       (\<lambda>c. returned c \<and> fetchLog (shared c) = [([], ''http://a''), ([0], ''http://c'')]
           \<and> (\<forall>p t. task_at (root c) p = Some t \<longrightarrow> p \<noteq> [] \<longrightarrow> t_url t \<noteq> ''http://b/paper.pdf'')
           \<and> (\<forall>p t. task_at (root c) p = Some t \<longrightarrow> ''http://b/paper.pdf'' \<notin> set (t_urls t)))"
proof -
  have h1: "''.pdf'' \<in> set files"
    by (simp add: files_def)
  have h2: "suffix ''.pdf'' ''http://b/paper.pdf''"
    by (simp add: suffix_def)
  have "reaches (Fetch web_mixed 10) (Crawl ''http://a'' 2 fs0) sched_mixed
       (\<lambda>c. returned c \<and> fetchLog (shared c) = [([], ''http://a''), ([0], ''http://c'')])"
    by code_simp
  then obtain c where r: "run (Fetch web_mixed 10) (Crawl ''http://a'' 2 fs0) sched_mixed = Some c"
    and "returned c \<and> fetchLog (shared c) = [([], ''http://a''), ([0], ''http://c'')]"
    by (auto simp: reaches_def split: option.splits)
  moreover note file_links_filtered[OF h1 h2, THEN conjunct2, THEN conjunct2, rule_format, OF r]
  ultimately show ?thesis
    using h1 h2 unfolding reaches_def r by simp
qed



subsection \<open>Moves at a position of the tree\<close>



lemma lift_recv:
  assumes "task_at t q = Some y" and "i < length (t_kids y)"
    and "is_Signal (t_pc (t_kids y ! i))" and "is_Await (t_pc y)" and "0 < t_count y"
  shows "\<exists>t'. step_task fetch pre (q @ [i]) sh t = Some (sh, t')
           \<and> task_at t' (q @ [i]) = Some (finish (t_kids y ! i))"
  using assms(1)
proof (induction q arbitrary: t pre)
  case Nil
  then have "t = y" by simp
  with assms(2-5) show ?case
    by (cases y) simp
next
  case (Cons j r)
  obtain url depth pc us cnt ks where t: "t = Task url depth pc us cnt ks"
    by (cases t)
  from Cons.prems t have j: "j < length ks" and y: "task_at (ks ! j) r = Some y"
    by (auto split: if_splits)
  from Cons.IH[OF y, of "pre @ [j]"] obtain k' where
    "step_task fetch (pre @ [j]) (r @ [i]) sh (ks ! j) = Some (sh, k')"
    "task_at k' (r @ [i]) = Some (finish (t_kids y ! i))"
    by blast
  with t j show ?case by auto
qed

lemma run_append:
  "run fetch c (a @ b) = (case run fetch c a of None \<Rightarrow> None | Some c1 \<Rightarrow> run fetch c1 b)"
  by (induction a arbitrary: c) (auto split: option.splits)

lemma held_task_at:
  "task_at t q = Some y \<Longrightarrow> held y \<subseteq># held t"
proof (induction q arbitrary: t)
  case Nil
  then show ?case by simp
next
  case (Cons j r)
  obtain url depth pc us cnt ks where t: "t = Task url depth pc us cnt ks"
    by (cases t)
  from Cons.prems t have j: "j < length ks" and y: "task_at (ks ! j) r = Some y"
    by (auto split: if_splits)
  obtain F where F: "sum_list (map held ks) = held (ks ! j) + F"
    using sum_list_update_split[of j ks held] j by auto
  from Cons.IH[OF y] have "held y \<subseteq># held (ks ! j)" .
  also have "held (ks ! j) \<subseteq># held t"
    using t F by simp
  finally show ?case .
qed

lemma fan_in_task_at:
  "fan_in t \<Longrightarrow> task_at t q = Some y \<Longrightarrow> fan_in y"
proof (induction q arbitrary: t)
  case Nil
  then show ?case by simp
next
  case (Cons j r)
  then show ?case
    by (cases t) (auto simp: list_all_length split: if_splits)
qed

lemma step_done_empty:
  assumes "\<not> is_Finished (t_pc (root c)) \<longrightarrow> doneChan c = []" and "step fetch c mv = Some c'"
  shows "\<not> is_Finished (t_pc (root c')) \<longrightarrow> doneChan c' = []"
  using assms(2)
proof (cases rule: step_cases)
  case (main b bs)
  with assms(1) show ?thesis by simp
next
  case root_send
  then show ?thesis by simp
next
  case (task p sh' t')
  with step_task_fan_in[OF task(2)] assms(1) show ?thesis by simp
qed

lemma run_done_empty:
  assumes "run fetch (Crawl url d fs) mvs = Some c"
  shows "\<not> is_Finished (t_pc (root c)) \<longrightarrow> doneChan c = []"
  using assms
proof (rule run_invariant)
  show "\<not> is_Finished (t_pc (root (Crawl url d fs))) \<longrightarrow> doneChan (Crawl url d fs) = []"
    by (simp add: Crawl_def)
qed (rule step_done_empty)

subsection \<open>What a task changes\<close>




subsection \<open>The abort at the limit\<close>




lemma task_at_finish_leaf:
  "task_at t p = Some x \<Longrightarrow> leaf_done x \<Longrightarrow> \<exists>x'. task_at (finish t) p = Some x' \<and> leaf_done x'"
  by (cases p) (auto split: if_splits simp: leaf_done_def)




subsection \<open>A task at its send can complete it\<close>

lemma lift_local_replace:
  assumes "task_at t q = Some y" and "local_step fetch (pre @ q) sh y = Some (sh', y')"
  shows "step_task fetch pre q sh t = Some (sh', replace_at t q y')"
  using assms
proof (induction q arbitrary: t pre)
  case Nil
  then show ?case by simp
next
  case (Cons j r)
  obtain url depth pc us cnt ks where t: "t = Task url depth pc us cnt ks"
    by (cases t)
  from Cons.prems(1) t have j: "j < length ks" and y: "task_at (ks ! j) r = Some y"
    by (auto split: if_splits)
  have ns: "\<not> (r = [] \<and> is_Signal (t_pc (ks ! j)))"
  proof
    assume "r = [] \<and> is_Signal (t_pc (ks ! j))"
    with y have "is_Signal (t_pc y)" by simp
    with Cons.prems(2) show False
      by (cases y; cases "t_pc y") simp_all
  qed
  from Cons.prems(2) have "local_step fetch ((pre @ [j]) @ r) sh y = Some (sh', y')"
    by simp
  from Cons.IH[OF y this] t j ns show ?case by auto
qed

lemma task_at_replace_at:
  "task_at t q = Some y \<Longrightarrow> task_at (replace_at t q x) q = Some x"
proof (induction q arbitrary: t)
  case Nil
  then show ?case by simp
next
  case (Cons j r)
  then show ?case
    by (cases t) (auto split: if_splits)
qed

lemma step_leaf_done:
  assumes "\<exists>x. task_at (root c) p = Some x \<and> leaf_done x" and "step fetch c mv = Some c'"
  shows "\<exists>x. task_at (root c') p = Some x \<and> leaf_done x"
  using assms(2)
proof (cases rule: step_cases)
  case (main b bs)
  with assms(1) show ?thesis by simp
next
  case root_send
  with assms(1) show ?thesis by (auto dest: task_at_finish_leaf)
next
  case (task q sh' t')
  with assms(1) step_task_leaf_done[OF task(2)] show ?thesis by auto
qed

lemma holder_empties_channel:
  assumes "claimed_once c" and "task_at (root c) q = Some y" and "m \<in># held y"
  shows "mapAccess (shared c) = None"
proof -
  from assms(1) obtain V where V: "inChan (shared c) + held (root c) = {#V#}"
    unfolding claimed_once_def by blast
  from held_task_at[OF assms(2)] assms(3) have "m \<in># held (root c)"
    by (meson mset_subset_eqD)
  then obtain A where "held (root c) = add_mset m A"
    by (meson multi_member_split)
  moreover from V have "size (inChan (shared c) + held (root c)) = 1"
    by simp
  ultimately have "inChan (shared c) = {#}"
    by simp
  then show ?thesis
    by (simp add: inChan_def split: option.splits)
qed

text \<open>
  The parent of a task that is at its send has the map or is in its wait loop. It can
  finish its loop over the URLs, give the map back, since the channel is empty while it
  holds the map, and then receive: its \<open>count\<close> is positive, because the child has not
  completed its send.
\<close>

lemma parent_receives:
  assumes "run fetch (Crawl start d fsi) mvs = Some c"
    and "task_at (root c) q = Some y" and "i < length (t_kids y)"
    and "t_kids y ! i = k" and "is_Signal (t_pc k)" and "to_await (t_pc y) = n"
  shows "\<exists>mvs' c'. run fetch c mvs' = Some c' \<and> task_at (root c') (q @ [i]) = Some (finish k)"
  using assms
proof (induction n arbitrary: mvs c y)
  case 0
  obtain url depth pc us cnt ks where y: "y = Task url depth pc us cnt ks"
    by (cases y)
  from run_barrier[OF "0.prems"(1)] have "fan_in (root c)"
    by simp
  from fan_in_task_at[OF this "0.prems"(2)] have fy: "fan_in y" .
  from "0.prems"(3,4) y have kin: "k \<in> set ks" and i: "i < length ks"
    by auto
  from "0.prems"(5) have nf: "\<not> is_Finished (t_pc k)"
    by (cases "t_pc k") simp_all
  from fy y kin nf "0.prems"(6) have pc: "pc = Await"
    by (cases pc) (auto simp: list_all_iff)
  from kin nf have "k \<in> set (filter (\<lambda>k. \<not> is_Finished (t_pc k)) ks)"
    by simp
  then have "0 < length (filter (\<lambda>k. \<not> is_Finished (t_pc k)) ks)"
    by (rule length_pos_if_in_set)
  with fy y pc have cnt: "0 < t_count y"
    by simp
  from lift_recv[OF "0.prems"(2,3) _ _ cnt, of fetch "[]" "shared c"] "0.prems"(4,5) y pc
  obtain t' where st: "step_task fetch [] (q @ [i]) (shared c) (root c) = Some (shared c, t')"
    and t': "task_at t' (q @ [i]) = Some (finish k)"
    by auto
  let ?c' = "c\<lparr>shared := shared c, root := t'\<rparr>"
  have "step fetch c (Go (q @ [i])) = Some ?c'"
    using st by (simp add: step_def)
  then have "run fetch c [Go (q @ [i])] = Some ?c'"
    by simp
  moreover have "task_at (root ?c') (q @ [i]) = Some (finish k)"
    using t' by simp
  ultimately show ?case
    by blast
next
  case (Suc n)
  obtain url depth pc us cnt ks where y: "y = Task url depth pc us cnt ks"
    by (cases y)
  have "\<exists>sh' y'. local_step fetch q (shared c) y = Some (sh', y') \<and> to_await (t_pc y') = n
      \<and> i < length (t_kids y') \<and> t_kids y' ! i = k"
  proof (cases pc)
    case (Dispatch m rest)
    show ?thesis
    proof (cases rest)
      case Nil
      with Dispatch y Suc.prems(3,4,6) show ?thesis by auto
    next
      case (Cons u rest')
      with Dispatch y Suc.prems(3,4,6) show ?thesis
        by (cases "lookup m u") (auto simp: nth_append)
    qed
  next
    case (Release m)
    with y have "m \<in># held y"
      by simp
    from holder_empties_channel[OF run_claimed_once[OF Suc.prems(1)] Suc.prems(2) this]
    have "mapAccess (shared c) = None" .
    with Release y Suc.prems(3,4,6) show ?thesis by auto
  qed (use Suc.prems(6) y in simp_all)
  then obtain sh' y' where l: "local_step fetch q (shared c) y = Some (sh', y')"
    and n: "to_await (t_pc y') = n" and i: "i < length (t_kids y')" and k: "t_kids y' ! i = k"
    by blast
  from l have l': "local_step fetch ([] @ q) (shared c) y = Some (sh', y')"
    by simp
  from lift_local_replace[OF Suc.prems(2) l']
  have st: "step_task fetch [] q (shared c) (root c) = Some (sh', replace_at (root c) q y')" .
  let ?c1 = "c\<lparr>shared := sh', root := replace_at (root c) q y'\<rparr>"
  have ns: "\<not> (q = [] \<and> is_Signal (t_pc (root c)))"
  proof
    assume "q = [] \<and> is_Signal (t_pc (root c))"
    with Suc.prems(2) have "is_Signal (t_pc y)" by simp
    with l show False
      by (cases y; cases "t_pc y") simp_all
  qed
  have s: "step fetch c (Go q) = Some ?c1"
    using ns st by (auto simp: step_def)
  with Suc.prems(1) have r1: "run fetch (Crawl start d fsi) (mvs @ [Go q]) = Some ?c1"
    by (simp add: run_append)
  have y1: "task_at (root ?c1) q = Some y'"
    using task_at_replace_at[OF Suc.prems(2)] by simp
  from Suc.IH[OF r1 y1 i k Suc.prems(5) n] obtain mvs' c' where
    "run fetch ?c1 mvs' = Some c'" "task_at (root c') (q @ [i]) = Some (finish k)"
    by blast
  with s have "run fetch c (Go q # mvs') = Some c' \<and> task_at (root c') (q @ [i]) = Some (finish k)"
    by simp
  then show ?case by blast
qed

lemma signal_completes:
  assumes "run fetch (Crawl start d fsi) mvs = Some c"
    and "task_at (root c) p = Some x" and "is_Signal (t_pc x)"
  shows "\<exists>mvs' c'. run fetch c mvs' = Some c' \<and> task_at (root c') p = Some (finish x)"
proof (cases p rule: rev_cases)
  case Nil
  with assms(2) have x: "x = root c" by simp
  with assms(3) have "\<not> is_Finished (t_pc (root c))"
    by (cases "t_pc (root c)") simp_all
  with run_done_empty[OF assms(1)] have "doneChan c = []"
    by simp
  with assms(3) x have "step fetch c (Go []) = Some (c\<lparr>root := finish (root c), doneChan := [True]\<rparr>)"
    by (simp add: step_def)
  then have "run fetch c [Go []] = Some (c\<lparr>root := finish (root c), doneChan := [True]\<rparr>)"
    by simp
  moreover have "task_at (root (c\<lparr>root := finish (root c), doneChan := [True]\<rparr>)) p = Some (finish x)"
    using Nil x by simp
  ultimately show ?thesis by blast
next
  case (snoc q i)
  with assms(2) obtain y where y: "task_at (root c) q = Some y"
    and i: "i < length (t_kids y)" and k: "t_kids y ! i = x"
    by (auto simp: task_at_append split: option.splits if_splits)
  from parent_receives[OF assms(1) y i k assms(3) refl] snoc show ?thesis
    by simp
qed

subsection \<open>A failed fetch\<close>

text \<open>
  C6. In any crawl, with any fetcher, let a task be about to call \<open>Fetch\<close> and let the
  call return an error. Then the task can make this move, and the move changes only
  this: the fetcher's state becomes what \<open>Fetch\<close> left, the call is logged, and the task
  stands at its send of line 84, without children. The history map in the channel and
  the maps that tasks hold are as before, and so are the channel \<open>done\<close>, the top-level
  call and every other task: nothing of the error reaches them. From then on the task
  is at its send or has returned, and never has a child; and there is a continuation in
  which it has completed its send and returned.
\<close>

theorem failed_fetch_is_leaf:
  assumes "run fetch (Crawl start d fsi) mvs = Some c"
    and "task_at (root c) p = Some x" and "is_Start (t_pc x)" and "0 < t_depth x"
    and "fetch (fstate (shared c)) (t_url x) = (Inl e, fs')"
  shows "\<exists>c1. step fetch c (Go p) = Some c1
      \<and> c1 = c\<lparr>shared := (shared c)\<lparr>fstate := fs',
                                      fetchLog := fetchLog (shared c) @ [(p, t_url x)]\<rparr>,
                root := replace_at (root c) p
                          (Task (t_url x) (t_depth x) Signal (t_urls x) (t_count x) [])\<rparr>
      \<and> held (root c1) = held (root c)
      \<and> (\<forall>mvs' c'. run fetch c1 mvs' = Some c' \<longrightarrow>
            (\<exists>x'. task_at (root c') p = Some x' \<and> leaf_done x'))
      \<and> (\<exists>mvs' c'. run fetch c1 mvs' = Some c'
            \<and> (\<exists>x'. task_at (root c') p = Some x' \<and> is_Finished (t_pc x') \<and> t_kids x' = []))"
proof -
  let ?x1 = "Task (t_url x) (t_depth x) Signal (t_urls x) (t_count x) []"
  let ?sh1 = "(shared c)\<lparr>fstate := fs', fetchLog := fetchLog (shared c) @ [(p, t_url x)]\<rparr>"
  let ?c1 = "c\<lparr>shared := ?sh1, root := replace_at (root c) p ?x1\<rparr>"
  from fan_in_task_at[OF conjunct1[OF run_barrier[OF assms(1)]] assms(2)] assms(3)
  have nk: "t_kids x = []"
    by (cases x; cases "t_pc x") simp_all
  with assms(3-5) have l: "local_step fetch ([] @ p) (shared c) x = Some (?sh1, ?x1)"
    by (cases x; cases "t_pc x") simp_all
  from lift_local_replace[OF assms(2) l]
  have st: "step_task fetch [] p (shared c) (root c) = Some (?sh1, replace_at (root c) p ?x1)" .
  have ns: "\<not> (p = [] \<and> is_Signal (t_pc (root c)))"
  proof
    assume "p = [] \<and> is_Signal (t_pc (root c))"
    with assms(2) have "is_Signal (t_pc x)" by simp
    with assms(3) show False
      by (cases "t_pc x") simp_all
  qed
  have s: "step fetch c (Go p) = Some ?c1"
    using ns st by (auto simp: step_def)
  have h: "held (root ?c1) = held (root c)"
    using step_task_fstate[OF st] by auto
  have x1: "task_at (root ?c1) p = Some ?x1"
    using task_at_replace_at[OF assms(2)] by simp
  have stay: "\<exists>x'. task_at (root c') p = Some x' \<and> leaf_done x'"
    if "run fetch ?c1 mvs' = Some c'" for mvs' c'
    using that
  proof (rule run_invariant)
    show "\<exists>x'. task_at (root ?c1) p = Some x' \<and> leaf_done x'"
      using x1 by (simp add: leaf_done_def)
  qed (rule step_leaf_done)
  from assms(1) s have r1: "run fetch (Crawl start d fsi) (mvs @ [Go p]) = Some ?c1"
    by (simp add: run_append)
  from signal_completes[OF r1 x1] obtain mvs' c' where
    rc: "run fetch ?c1 mvs' = Some c'" and "task_at (root c') p = Some (finish ?x1)"
    by auto
  then have "\<exists>x'. task_at (root c') p = Some x' \<and> is_Finished (t_pc x') \<and> t_kids x' = []"
    by simp
  with rc have live: "\<exists>mvs' c'. run fetch ?c1 mvs' = Some c'
            \<and> (\<exists>x'. task_at (root c') p = Some x' \<and> is_Finished (t_pc x') \<and> t_kids x' = [])"
    by blast
  from s h stay live show ?thesis
    by blast
qed

theorem failed_fetch_is_leaf_witness:
  "reaches (Fetch web_dead 10) (Crawl ''http://a'' 2 fs0) [Go [], Go [], Go []]
     (\<lambda>c. (case task_at (root c) [0] of
              None \<Rightarrow> False
            | Some x \<Rightarrow> is_Start (t_pc x) \<and> 0 < t_depth x \<and> t_url x = ''http://b''
                \<and> (case fst (Fetch web_dead 10 (fstate (shared c)) (t_url x)) of
                      Inl e \<Rightarrow> True | Inr us \<Rightarrow> False))
         \<and> (\<exists>c1. step (Fetch web_dead 10) c (Go [0]) = Some c1
               \<and> mapAccess (shared c1) = mapAccess (shared c)
               \<and> held (root c1) = held (root c)
               \<and> (\<exists>mvs' c'. run (Fetch web_dead 10) c1 mvs' = Some c'
                     \<and> (\<exists>x'. task_at (root c') [0] = Some x' \<and> is_Finished (t_pc x')
                           \<and> t_kids x' = []))))"
proof -
  let ?F = "Fetch web_dead 10"
  have "reaches ?F (Crawl ''http://a'' 2 fs0) [Go [], Go [], Go []]
     (\<lambda>c. (case task_at (root c) [0] of
              None \<Rightarrow> False
            | Some x \<Rightarrow> is_Start (t_pc x) \<and> 0 < t_depth x \<and> t_url x = ''http://b''
                \<and> (case fst (Fetch web_dead 10 (fstate (shared c)) (t_url x)) of
                      Inl e \<Rightarrow> True | Inr us \<Rightarrow> False)))"
    by code_simp
  then obtain c x where r: "run ?F (Crawl ''http://a'' 2 fs0) [Go [], Go [], Go []] = Some c"
    and x: "task_at (root c) [0] = Some x" "is_Start (t_pc x)" "0 < t_depth x" "t_url x = ''http://b''"
    and f: "case fst (?F (fstate (shared c)) (t_url x)) of Inl e \<Rightarrow> True | Inr us \<Rightarrow> False"
    by (auto simp: reaches_def split: option.splits)
  from f obtain e fs' where f': "?F (fstate (shared c)) (t_url x) = (Inl e, fs')"
    by (cases "?F (fstate (shared c)) (t_url x)") (auto split: sum.splits)
  from failed_fetch_is_leaf[OF r x(1-3) f'] obtain c1 where
    "step ?F c (Go [0]) = Some c1" "mapAccess (shared c1) = mapAccess (shared c)"
    "held (root c1) = held (root c)"
    "\<exists>mvs' c'. run ?F c1 mvs' = Some c'
        \<and> (\<exists>x'. task_at (root c') [0] = Some x' \<and> is_Finished (t_pc x') \<and> t_kids x' = [])"
    by auto
  then have "\<exists>c1. step ?F c (Go [0]) = Some c1
               \<and> mapAccess (shared c1) = mapAccess (shared c)
               \<and> held (root c1) = held (root c)
               \<and> (\<exists>mvs' c'. run ?F c1 mvs' = Some c'
                     \<and> (\<exists>x'. task_at (root c') [0] = Some x' \<and> is_Finished (t_pc x')
                           \<and> t_kids x' = []))"
    by blast
  with r x f show ?thesis
    by (simp add: reaches_def)
qed

end
